theory Spec2Isabelle
  imports Complex_Main
begin

section \<open>Bursty oscillations with cycle features (neurodsp/sim/periodic.py)\<close>

text \<open>
  The development embeds \<^verbatim>\<open>sim_bursty_oscillation_features\<close> and its three helpers
  \<^verbatim>\<open>_make_is_osc\<close>, \<^verbatim>\<open>_determine_cycle_properties\<close> and \<^verbatim>\<open>_sim_cycles\<close>.

  Conventions of the embedding.
  \<^item> A Python float is a \<open>pyfloat\<close>: either \<open>NaN\<close> or a finite value, which is an ideal
    real number (rounding error, infinities and signed zeros are not modelled).
  \<^item> A Python integer is an \<open>int\<close>. The arrays \<^verbatim>\<open>periods\<close> and \<^verbatim>\<open>start_sample\<close> are numpy
    arrays of 64-bit integers: storing a Python integer outside the 64-bit range raises
    \<^verbatim>\<open>OverflowError\<close>, and the running sum of line 232 wraps around.
  \<^item> The process-wide random generator is two sequences: \<open>rand k\<close> is the value of the
    \<open>k\<close>-th call of \<^verbatim>\<open>rand()\<close> and \<open>randn k\<close> the value of the \<open>k\<close>-th call of
    \<^verbatim>\<open>randn()\<close>, both counted from 0. All calls of \<^verbatim>\<open>rand()\<close> come before all calls
    of \<^verbatim>\<open>randn()\<close>, so two sequences lose nothing.
  \<^item> Every exception is a value of type \<open>error\<close>; a function that can raise returns
    \<open>error + 'a\<close>.
  \<^item> An element of the flag list is \<^verbatim>\<open>None\<close>, \<^verbatim>\<open>True\<close> or \<^verbatim>\<open>False\<close>: a \<open>bool option\<close>.
\<close>

subsection \<open>Floats, exceptions and numpy primitives\<close>

datatype pyfloat = NaN | Fin real

datatype error =
    InvalidFeature "string list"
  | UnboundLocalError string
  | NameError string
  | IndexError
  | ZeroDivisionError
  | OverflowError
  | ValueError string

text \<open>\<open>InvalidFeature\<close> is the \<^verbatim>\<open>ValueError\<close> raised at line 313; it carries the list that
  the message joins with commas. \<open>ValueError\<close> stands for the ones numpy, pandas and
  \<^verbatim>\<open>int()\<close> raise.\<close>

definition ebind :: "error + 'a \<Rightarrow> ('a \<Rightarrow> error + 'b) \<Rightarrow> error + 'b" where
  "ebind m f = (case m of Inl e \<Rightarrow> Inl e | Inr x \<Rightarrow> f x)"

fun fop :: "(real \<Rightarrow> real \<Rightarrow> real) \<Rightarrow> pyfloat \<Rightarrow> pyfloat \<Rightarrow> pyfloat" where
  "fop f (Fin x) (Fin y) = Fin (f x y)"
| "fop f _ _ = NaN"

fun fgt :: "pyfloat \<Rightarrow> real \<Rightarrow> bool" where
  "fgt NaN c = False"
| "fgt (Fin x) c = (x > c)"

fun flt :: "pyfloat \<Rightarrow> real \<Rightarrow> bool" where
  "flt NaN c = False"
| "flt (Fin x) c = (x < c)"

fun isnan :: "pyfloat \<Rightarrow> bool" where
  "isnan NaN = True"
| "isnan (Fin x) = False"

text \<open>\<^verbatim>\<open>int(x)\<close> of a float truncates towards zero and raises on NaN.\<close>

definition trunc :: "real \<Rightarrow> int" where
  "trunc x = (if 0 \<le> x then \<lfloor>x\<rfloor> else \<lceil>x\<rceil>)"

fun py_int :: "pyfloat \<Rightarrow> error + int" where
  "py_int NaN = Inl (ValueError ''cannot convert float NaN to integer'')"
| "py_int (Fin x) = Inr (trunc x)"

text \<open>The range of a signed 64-bit integer, and the value a sum wraps to.\<close>

definition in_int64 :: "int \<Rightarrow> bool" where
  "in_int64 x = (- (2 ^ 63) \<le> x \<and> x < 2 ^ 63)"

definition wrap64 :: "int \<Rightarrow> int" where
  "wrap64 x = (x + 2 ^ 63) mod 2 ^ 64 - 2 ^ 63"

text \<open>\<^verbatim>\<open>np.round\<close> rounds halves to the even neighbour.\<close>

definition np_round :: "real \<Rightarrow> real" where
  "np_round x =
     (let f = \<lfloor>x\<rfloor>; d = x - of_int f
      in if d < 1 / 2 then of_int f
         else if 1 / 2 < d then of_int (f + 1)
         else if even f then of_int f else of_int (f + 1))"

fun fround :: "pyfloat \<Rightarrow> pyfloat" where
  "fround NaN = NaN"
| "fround (Fin x) = Fin (np_round x)"

definition np_zeros :: "int \<Rightarrow> error + pyfloat list" where
  "np_zeros n =
     (if n < 0 then Inl (ValueError ''negative dimensions are not allowed'')
      else Inr (replicate (nat n) (Fin 0)))"

definition np_linspace :: "real \<Rightarrow> real \<Rightarrow> int \<Rightarrow> error + real list" where
  "np_linspace start stop num =
     (if num < 0 then Inl (ValueError ''Number of samples must be non-negative'')
      else if num = 1 then Inr [start]
      else Inr (map (\<lambda>i. start + real i * ((stop - start) / real (nat num - 1)))
                  [0 ..< nat num]))"

text \<open>Slices \<^verbatim>\<open>xs[:n]\<close> and \<^verbatim>\<open>xs[n:]\<close>; a negative bound counts from the end.\<close>

definition py_upto :: "'a list \<Rightarrow> int \<Rightarrow> 'a list" where
  "py_upto xs n = (if 0 \<le> n then take (nat n) xs else take (nat (int (length xs) + n)) xs)"

definition py_from :: "'a list \<Rightarrow> int \<Rightarrow> 'a list" where
  "py_from xs n = (if 0 \<le> n then drop (nat n) xs else drop (nat (int (length xs) + n)) xs)"

text \<open>\<^verbatim>\<open>sig[-1]\<close>.\<close>

definition py_last :: "'a list \<Rightarrow> error + 'a" where
  "py_last xs = (if xs = [] then Inl IndexError else Inr (last xs))"

text \<open>Python's truth value of a list element that is \<^verbatim>\<open>None\<close> or a bool.\<close>

fun truthy :: "bool option \<Rightarrow> bool" where
  "truthy None = False"
| "truthy (Some b) = b"

subsection \<open>\<^verbatim>\<open>_make_is_osc\<close> (lines 249-264)\<close>

text \<open>\<open>is_osc_loop\<close> is the loop \<^verbatim>\<open>for ii in range(1, n_cycles)\<close>: \<open>ii\<close> is the loop variable
  and the third numeric argument the number of iterations left. Iteration \<open>ii\<close> makes the
  \<open>ii\<close>-th call of \<^verbatim>\<open>rand()\<close>, whose value is \<open>rand (ii - 1)\<close>.\<close>

fun is_osc_loop ::
  "real \<Rightarrow> real \<Rightarrow> (nat \<Rightarrow> real) \<Rightarrow> nat \<Rightarrow> nat \<Rightarrow> bool option list \<Rightarrow> bool option list" where
  "is_osc_loop enter_burst leave_burst rand ii 0 is_oscillating = is_oscillating"
| "is_osc_loop enter_burst leave_burst rand ii (Suc k) is_oscillating =
     (let rand_num = rand (ii - 1)
      in is_osc_loop enter_burst leave_burst rand (Suc ii) k
           (if truthy (is_oscillating ! (ii - 1))
            then is_oscillating[ii := Some (rand_num > leave_burst)]
            else is_oscillating[ii := Some (rand_num < enter_burst)]))"

definition make_is_osc ::
  "int \<Rightarrow> real \<Rightarrow> real \<Rightarrow> (nat \<Rightarrow> real) \<Rightarrow> error + bool option list" where
  "make_is_osc n_cycles enter_burst leave_burst rand =
     (let is_oscillating = replicate (nat n_cycles) None
      in if is_oscillating = [] then Inl IndexError
         else Inr (is_osc_loop enter_burst leave_burst rand 1 (nat n_cycles - 1)
                     (is_oscillating[0 := Some False])))"

subsection \<open>\<^verbatim>\<open>_determine_cycle_properties\<close> (lines 268-322)\<close>

text \<open>The dictionary \<^verbatim>\<open>cycle_features\<close> with its nine keys, and the dictionary
  \<^verbatim>\<open>cur_burst\<close> with its three.\<close>

record cycle_features =
  amp_mean :: real
  amp_burst_std :: real
  amp_std :: real
  period_mean :: real
  period_burst_std :: real
  period_std :: real
  rdsym_mean :: real
  rdsym_burst_std :: real
  rdsym_std :: real

record burst =
  burst_period_mean :: pyfloat
  burst_amp_mean :: pyfloat
  burst_rdsym_mean :: pyfloat

text \<open>The state of the loop over the flags: the three output arrays, the local
  \<^verbatim>\<open>cur_burst\<close> (\<open>None\<close> while it is unbound), the locals \<^verbatim>\<open>period\<close>, \<^verbatim>\<open>amp\<close> and
  \<^verbatim>\<open>rdsym\<close>, which are always bound together (\<open>None\<close> while they are unbound), and the
  number of calls of \<^verbatim>\<open>randn()\<close> made so far.\<close>

record sampler_state =
  periods :: "int list"
  amps :: "pyfloat list"
  rdsyms :: "pyfloat list"
  cur_burst :: "burst option"
  cur_vars :: "(pyfloat \<times> pyfloat \<times> pyfloat) option"
  pos :: nat

text \<open>The loop \<^verbatim>\<open>for n_try in range(n_tries)\<close> of lines 297-304. The first argument is the
  number of iterations left. The result is whether the loop ended with \<^verbatim>\<open>break\<close>, the
  locals \<^verbatim>\<open>period\<close>, \<^verbatim>\<open>amp\<close>, \<^verbatim>\<open>rdsym\<close> and the number of draws made.\<close>

fun try_features ::
  "nat \<Rightarrow> cycle_features \<Rightarrow> burst \<Rightarrow> (nat \<Rightarrow> real) \<Rightarrow> nat \<Rightarrow>
   (pyfloat \<times> pyfloat \<times> pyfloat) option \<Rightarrow>
   bool \<times> (pyfloat \<times> pyfloat \<times> pyfloat) option \<times> nat" where
  "try_features 0 cf cb randn k vs = (False, vs, k)"
| "try_features (Suc n) cf cb randn k vs =
     (let period = fop (+) (burst_period_mean cb) (Fin (randn k * period_std cf));
          amp = fop (+) (burst_amp_mean cb) (Fin (randn (k + 1) * amp_std cf));
          rdsym = fop (+) (burst_rdsym_mean cb) (Fin (randn (k + 2) * rdsym_std cf))
      in if fgt period 0 \<and> fgt amp 0 \<and> fgt rdsym 0 \<and> flt rdsym 1
         then (True, Some (period, amp, rdsym), k + 3)
         else try_features n cf cb randn (k + 3) (Some (period, amp, rdsym)))"

text \<open>Lines 310-311: the labels whose value is below 0, then \<^verbatim>\<open>rdsym\<close> once more if it is
  above 1.\<close>

definition features_invalid :: "pyfloat \<Rightarrow> pyfloat \<Rightarrow> pyfloat \<Rightarrow> string list" where
  "features_invalid period amp rdsym =
     (let features_invalid =
            map fst (filter (\<lambda>(label, v). flt v 0)
                       [(''period'', period), (''amp'', amp), (''rdsym'', rdsym)])
      in if fgt rdsym 1 then features_invalid @ [''rdsym''] else features_invalid)"

text \<open>Lines 318-320: the three stores at index \<open>ind\<close>. \<^verbatim>\<open>periods\<close> is an array of 64-bit
  integers, and a Python integer that does not fit raises \<^verbatim>\<open>OverflowError\<close>.\<close>

definition store_cycle ::
  "nat \<Rightarrow> pyfloat \<Rightarrow> pyfloat \<Rightarrow> pyfloat \<Rightarrow> sampler_state \<Rightarrow> error + sampler_state" where
  "store_cycle ind period amp rdsym s =
     ebind (py_int period) (\<lambda>p.
       if \<not> in_int64 p then Inl OverflowError
       else if ind < length (periods s) \<and> ind < length (amps s) \<and> ind < length (rdsyms s)
       then Inr (s\<lparr>periods := (periods s)[ind := p],
                    amps := (amps s)[ind := amp],
                    rdsyms := (rdsyms s)[ind := rdsym]\<rparr>)
       else Inl IndexError)"

text \<open>Lines 286-293: at the first cycle of a burst the three burst means are drawn. The
  result is \<^verbatim>\<open>cur_burst\<close> and the number of draws made so far.\<close>

definition start_burst :: "cycle_features \<Rightarrow> (nat \<Rightarrow> real) \<Rightarrow> burst \<Rightarrow> nat \<Rightarrow> burst \<times> nat" where
  "start_burst cf randn cb k =
     (if isnan (burst_period_mean cb)
      then (\<lparr>burst_period_mean = Fin (period_mean cf + randn k * period_burst_std cf),
             burst_amp_mean = Fin (amp_mean cf + randn (k + 1) * amp_burst_std cf),
             burst_rdsym_mean = Fin (rdsym_mean cf + randn (k + 2) * rdsym_burst_std cf)\<rparr>,
            k + 3)
      else (cb, k))"

text \<open>The body of the loop over \<^verbatim>\<open>enumerate(is_oscillating)\<close>, lines 277-320.
  \<^verbatim>\<open>is_osc is False\<close> holds for the element \<^verbatim>\<open>False\<close> only.

  Line 310 reads the locals \<^verbatim>\<open>period\<close>, \<^verbatim>\<open>amp\<close> and \<^verbatim>\<open>rdsym\<close> through
  \<^verbatim>\<open>eval(label)\<close> inside a list comprehension. Whether \<^verbatim>\<open>eval\<close> finds them there depends
  on the interpreter, so it is the first argument, \<open>eval_sees_locals\<close>, of the sampler and
  of everything that calls it: it is true where a comprehension runs in the scope of its
  function (Python 2, and Python 3.12 and later), and false where a comprehension has a
  scope of its own (Python 3.0 to 3.11); there \<^verbatim>\<open>eval('period')\<close> raises \<^verbatim>\<open>NameError\<close>.
  Nothing else in the file depends on the interpreter.\<close>

definition cycle_body ::
  "bool \<Rightarrow> cycle_features \<Rightarrow> int \<Rightarrow> (nat \<Rightarrow> real) \<Rightarrow> nat \<Rightarrow> bool option \<Rightarrow> sampler_state \<Rightarrow>
   error + sampler_state" where
  "cycle_body eval_sees_locals cf n_tries randn ind is_osc s =
     (if is_osc = Some False then
        let period = Fin (period_mean cf + randn (pos s) * period_std cf);
            amp = NaN;
            rdsym = NaN
        in store_cycle ind period amp rdsym
             (s\<lparr>cur_burst := Some \<lparr>burst_period_mean = NaN, burst_amp_mean = NaN,
                                   burst_rdsym_mean = NaN\<rparr>,
                 cur_vars := Some (period, amp, rdsym),
                 pos := pos s + 1\<rparr>)
      else
        (case cur_burst s of
           None \<Rightarrow> Inl (UnboundLocalError ''cur_burst'')
         | Some cb \<Rightarrow>
            let (cb', k) = start_burst cf randn cb (pos s)
            in (case try_features (nat n_tries) cf cb' randn k (cur_vars s) of
                  (True, Some (period, amp, rdsym), k') \<Rightarrow>
                    store_cycle ind period amp rdsym
                      (s\<lparr>cur_burst := Some cb', cur_vars := Some (period, amp, rdsym),
                          pos := k'\<rparr>)
                | (True, None, k') \<Rightarrow> Inl (NameError ''period'')
                | (False, Some (period, amp, rdsym), k') \<Rightarrow>
                    if eval_sees_locals
                    then Inl (InvalidFeature (features_invalid period amp rdsym))
                    else Inl (NameError ''period'')
                | (False, None, k') \<Rightarrow> Inl (NameError ''period''))))"

fun cycle_loop ::
  "bool \<Rightarrow> cycle_features \<Rightarrow> int \<Rightarrow> (nat \<Rightarrow> real) \<Rightarrow> nat \<Rightarrow> bool option list \<Rightarrow> sampler_state \<Rightarrow>
   error + sampler_state" where
  "cycle_loop eval_sees_locals cf n_tries randn ind [] s = Inr s"
| "cycle_loop eval_sees_locals cf n_tries randn ind (is_osc # rest) s =
     ebind (cycle_body eval_sees_locals cf n_tries randn ind is_osc s)
       (cycle_loop eval_sees_locals cf n_tries randn (Suc ind) rest)"

definition determine_cycle_properties ::
  "bool \<Rightarrow> bool option list \<Rightarrow> cycle_features \<Rightarrow> int \<Rightarrow> (nat \<Rightarrow> real) \<Rightarrow>
   error + (int list \<times> pyfloat list \<times> pyfloat list)" where
  "determine_cycle_properties eval_sees_locals is_oscillating cf n_tries randn =
     (let n = length is_oscillating;
          s0 = \<lparr>periods = replicate n 0, amps = replicate n (Fin 0),
                rdsyms = replicate n (Fin 0), cur_burst = None, cur_vars = None, pos = 0\<rparr>
      in ebind (cycle_loop eval_sees_locals cf n_tries randn 0 is_oscillating s0)
           (\<lambda>s. Inr (periods s, amps s, rdsyms s)))"

subsection \<open>\<^verbatim>\<open>_sim_cycles\<close> (lines 325-383)\<close>

text \<open>A row of the data frame.\<close>

record cycle_row =
  is_cycle :: "bool option"
  period :: int
  amp :: pyfloat
  rdsym :: pyfloat
  start_sample :: int

text \<open>The assignment \<^verbatim>\<open>sig[-len(rise_t):] = rise_t\<close> of line 361. numpy accepts it when the
  slice of \<open>sig\<close> is as long as \<open>rise_t\<close>, or when \<open>rise_t\<close> has one element (which is then
  broadcast over the slice, here an empty one); otherwise it raises.\<close>

definition assign_tail :: "'a list \<Rightarrow> 'a list \<Rightarrow> error + 'a list" where
  "assign_tail sig vs =
     (let target = py_from sig (- int (length vs))
      in if length target = length vs then Inr (py_upto sig (- int (length vs)) @ vs)
         else if length vs = 1
         then Inr (py_upto sig (- int (length vs)) @ replicate (length target) (hd vs))
         else Inl (ValueError ''could not broadcast input array''))"

text \<open>Lines 357-361, the rise at the entry of a burst.\<close>

definition rise_overwrite :: "cycle_row \<Rightarrow> pyfloat list \<Rightarrow> error + pyfloat list" where
  "rise_overwrite row sig =
     ebind (np_linspace (- pi / 2) 0 (trunc (real_of_int (period row) / 4))) (\<lambda>l.
       let rise_pha = py_from l 1;
           rise_t = map (\<lambda>ph. fop (*) (Fin (cos ph)) (amp row)) rise_pha
       in if length rise_pha > 0 then assign_tail sig rise_t else Inr sig)"

text \<open>Lines 364-379, the samples of one oscillating cycle.\<close>

definition osc_cycle :: "cycle_row \<Rightarrow> pyfloat list \<Rightarrow> bool \<Rightarrow> error + pyfloat list" where
  "osc_cycle row sig last_cycle_oscillating =
     ebind (py_int (fround (fop (*) (Fin (real_of_int (period row))) (rdsym row))))
       (\<lambda>rise_samples.
         let decay_samples = period row - rise_samples
         in ebind (np_linspace 0 pi (decay_samples + 1)) (\<lambda>l1.
            ebind (np_linspace (- pi) 0 (rise_samples + 1)) (\<lambda>l2.
              let pha_t = py_from l1 1 @ py_from l2 1;
                  cycle_t = map (\<lambda>ph. Fin (cos ph)) pha_t
              in if last_cycle_oscillating then
                   ebind (py_last sig) (\<lambda>sig_last.
                     let scaling = fop (/) (fop (+) (amp row) sig_last) (Fin 2);
                         offset = fop (/) (fop (-) sig_last (amp row)) (Fin 2);
                         cycle_t1 =
                           map (\<lambda>c. fop (+) (fop (*) c scaling) offset)
                             (py_upto cycle_t decay_samples)
                           @ py_from cycle_t decay_samples;
                         cycle_t2 =
                           py_upto cycle_t1 decay_samples
                           @ map (\<lambda>c. fop (*) c (amp row)) (py_from cycle_t1 decay_samples)
                     in Inr cycle_t2)
                 else Inr (map (\<lambda>c. fop (*) c (amp row)) cycle_t))))"

text \<open>The body of the loop over the rows; the state is \<^verbatim>\<open>sig\<close> and
  \<^verbatim>\<open>last_cycle_oscillating\<close>.\<close>

definition sim_row :: "cycle_row \<Rightarrow> pyfloat list \<times> bool \<Rightarrow> error + (pyfloat list \<times> bool)" where
  "sim_row row st =
     (let (sig, last_cycle_oscillating) = st
      in if is_cycle row = Some False then
           (if last_cycle_oscillating then
              ebind (np_linspace 0 (pi / 2) (trunc (real_of_int (period row) / 4)))
                (\<lambda>decay_pha.
                  ebind (py_last sig) (\<lambda>sig_last.
                    let decay_t = map (\<lambda>ph. fop (*) (Fin (cos ph)) sig_last) decay_pha;
                        sig1 = sig @ decay_t
                    in ebind (np_zeros (period row - trunc (real_of_int (period row) / 4)))
                         (\<lambda>cycle_t. Inr (sig1 @ cycle_t, False))))
            else ebind (np_zeros (period row)) (\<lambda>cycle_t. Inr (sig @ cycle_t, False)))
         else
           ebind (if \<not> last_cycle_oscillating then rise_overwrite row sig else Inr sig)
             (\<lambda>sig1.
               ebind (osc_cycle row sig1 last_cycle_oscillating)
                 (\<lambda>cycle_t. Inr (sig1 @ cycle_t, True))))"

fun sim_rows :: "cycle_row list \<Rightarrow> pyfloat list \<times> bool \<Rightarrow> error + (pyfloat list \<times> bool)" where
  "sim_rows [] st = Inr st"
| "sim_rows (row # rows) st = ebind (sim_row row st) (sim_rows rows)"

definition sim_cycles :: "cycle_row list \<Rightarrow> error + pyfloat list" where
  "sim_cycles df = ebind (sim_rows df ([], False)) (\<lambda>st. Inr (fst st))"

subsection \<open>\<^verbatim>\<open>sim_bursty_oscillation_features\<close> (lines 153-244)\<close>

text \<open>Lines 211-219. The argument \<^verbatim>\<open>cycle_features\<close> is \<^verbatim>\<open>None\<close> or a dictionary, given as
  the list of its items in iteration order. A key that is none of the nine is stored by the
  source and never read.\<close>

definition set_feature :: "string \<Rightarrow> real \<Rightarrow> cycle_features \<Rightarrow> cycle_features" where
  "set_feature k v cf =
     (if k = ''amp_mean'' then cf\<lparr>amp_mean := v\<rparr>
      else if k = ''amp_burst_std'' then cf\<lparr>amp_burst_std := v\<rparr>
      else if k = ''amp_std'' then cf\<lparr>amp_std := v\<rparr>
      else if k = ''period_mean'' then cf\<lparr>period_mean := v\<rparr>
      else if k = ''period_burst_std'' then cf\<lparr>period_burst_std := v\<rparr>
      else if k = ''period_std'' then cf\<lparr>period_std := v\<rparr>
      else if k = ''rdsym_mean'' then cf\<lparr>rdsym_mean := v\<rparr>
      else if k = ''rdsym_burst_std'' then cf\<lparr>rdsym_burst_std := v\<rparr>
      else if k = ''rdsym_std'' then cf\<lparr>rdsym_std := v\<rparr>
      else cf)"

definition cycle_features_use ::
  "int \<Rightarrow> real \<Rightarrow> (string \<times> real) list option \<Rightarrow> cycle_features" where
  "cycle_features_use mean_period_samples rdsym_arg cycle_features_arg =
     (let defaults =
            \<lparr>amp_mean = 1, amp_burst_std = 0, amp_std = 0,
             period_mean = real_of_int mean_period_samples, period_burst_std = 0,
             period_std = 0,
             rdsym_mean = rdsym_arg, rdsym_burst_std = 0, rdsym_std = 0\<rparr>
      in case cycle_features_arg of
           None \<Rightarrow> defaults
         | Some kvs \<Rightarrow> fold (\<lambda>(k, v). set_feature k v) kvs defaults)"

text \<open>Line 223; both operands of the division are Python integers.\<close>

definition n_cycles_overestimate :: "int \<Rightarrow> int \<Rightarrow> error + int" where
  "n_cycles_overestimate n_samples mean_period_samples =
     (if mean_period_samples = 0 then Inl ZeroDivisionError
      else Inr (trunc (of_int
             \<lceil>real_of_int n_samples / real_of_int mean_period_samples * 2\<rceil>)))"

text \<open>Lines 230-232: the data frame and its column \<^verbatim>\<open>start_sample\<close>, which is 0 followed by
  the running sums of \<^verbatim>\<open>period\<close> without the last one. The column \<^verbatim>\<open>period\<close> holds 64-bit
  integers and \<^verbatim>\<open>cumsum\<close> adds them in 64 bits, wrapping around without an error.\<close>

fun cumsum_from :: "int \<Rightarrow> int list \<Rightarrow> int list" where
  "cumsum_from a [] = []"
| "cumsum_from a (x # xs) = wrap64 (a + x) # cumsum_from (wrap64 (a + x)) xs"

definition cumsum :: "int list \<Rightarrow> int list" where
  "cumsum xs = cumsum_from 0 xs"

definition make_df ::
  "bool option list \<Rightarrow> int list \<Rightarrow> pyfloat list \<Rightarrow> pyfloat list \<Rightarrow> error + cycle_row list" where
  "make_df is_oscillating ps as rs =
     (if \<not> (length ps = length is_oscillating \<and> length as = length is_oscillating
             \<and> length rs = length is_oscillating)
      then Inl (ValueError ''All arrays must be of the same length'')
      else
        let starts = 0 # py_upto (cumsum ps) (- 1)
        in if length starts \<noteq> length is_oscillating
           then Inl (ValueError ''Length of values does not match length of index'')
           else Inr (map (\<lambda>i. \<lparr>is_cycle = is_oscillating ! i, period = ps ! i,
                                 amp = as ! i, rdsym = rs ! i, start_sample = starts ! i\<rparr>)
                       [0 ..< length is_oscillating]))"

text \<open>Lines 211 and 222-226: the mean period, the number of samples and the flags. The
  result is \<^verbatim>\<open>mean_period_samples\<close>, \<^verbatim>\<open>n_samples\<close> and \<^verbatim>\<open>is_oscillating\<close>. (Lines
  212-219, which build the dictionary of features, raise nothing and draw nothing, so
  they are taken after line 226.)\<close>

definition sim_flags ::
  "real \<Rightarrow> real \<Rightarrow> real \<Rightarrow> real \<Rightarrow> real \<Rightarrow> (nat \<Rightarrow> real) \<Rightarrow>
   error + (int \<times> int \<times> bool option list)" where
  "sim_flags n_seconds fs freq enter_burst leave_burst rand =
     (if freq = 0 then Inl ZeroDivisionError
      else
        let mean_period_samples = trunc (fs / freq);
            n_samples = trunc (n_seconds * fs)
        in ebind (n_cycles_overestimate n_samples mean_period_samples) (\<lambda>n_cycles.
           ebind (make_is_osc n_cycles enter_burst leave_burst rand) (\<lambda>is_oscillating.
             Inr (mean_period_samples, n_samples, is_oscillating))))"

text \<open>Lines 210-232: everything up to the data frame before it is cut at \<^verbatim>\<open>n_samples\<close>.
  The result is \<^verbatim>\<open>n_samples\<close> and the data frame.\<close>

definition sim_table ::
  "bool \<Rightarrow> real \<Rightarrow> real \<Rightarrow> real \<Rightarrow> real \<Rightarrow> real \<Rightarrow> real \<Rightarrow> (string \<times> real) list option \<Rightarrow> int \<Rightarrow>
   (nat \<Rightarrow> real) \<Rightarrow> (nat \<Rightarrow> real) \<Rightarrow> error + (int \<times> cycle_row list)" where
  "sim_table eval_sees_locals n_seconds fs freq rdsym_arg enter_burst leave_burst cycle_features_arg n_tries
     rand randn =
     ebind (sim_flags n_seconds fs freq enter_burst leave_burst rand)
       (\<lambda>(mean_period_samples, n_samples, is_oscillating).
         let cf = cycle_features_use mean_period_samples rdsym_arg cycle_features_arg
         in ebind (determine_cycle_properties eval_sees_locals is_oscillating cf n_tries randn) (\<lambda>(ps, as, rs).
            ebind (make_df is_oscillating ps as rs) (\<lambda>df. Inr (n_samples, df))))"

text \<open>Modelled from the spec: the decorator \<^verbatim>\<open>normalize\<close> of \<^verbatim>\<open>neurodsp.utils.decorators\<close>
  (imported at line 7, applied at line 153), whose source is not among the files. The spec
  describes it as a post-processing step that rescales the signal to zero mean and unit
  variance. A division by zero gives NaN, as \<^verbatim>\<open>0.0 / 0.0\<close> does in numpy.\<close>

fun fdiv :: "pyfloat \<Rightarrow> pyfloat \<Rightarrow> pyfloat" where
  "fdiv (Fin x) (Fin y) = (if y = 0 then NaN else Fin (x / y))"
| "fdiv _ _ = NaN"

fun fsqrt :: "pyfloat \<Rightarrow> pyfloat" where
  "fsqrt (Fin x) = (if x < 0 then NaN else Fin (sqrt x))"
| "fsqrt NaN = NaN"

definition fsum :: "pyfloat list \<Rightarrow> pyfloat" where
  "fsum xs = foldl (fop (+)) (Fin 0) xs"

definition normalize :: "pyfloat list \<Rightarrow> pyfloat list" where
  "normalize sig =
     (let n = Fin (real (length sig));
          mean = fdiv (fsum sig) n;
          centred = map (\<lambda>x. fop (-) x mean) sig;
          variance = fdiv (fsum (map (\<lambda>x. fop (*) x x) centred)) n
      in map (\<lambda>x. fdiv x (fsqrt variance)) centred)"

text \<open>Lines 233-244. The result is the signal and, when \<^verbatim>\<open>return_cycle_df\<close> is set, the data
  frame without its last row.\<close>

definition sim_bursty_oscillation_features ::
  "bool \<Rightarrow> real \<Rightarrow> real \<Rightarrow> real \<Rightarrow> real \<Rightarrow> real \<Rightarrow> real \<Rightarrow> (string \<times> real) list option \<Rightarrow> bool \<Rightarrow>
   int \<Rightarrow> (nat \<Rightarrow> real) \<Rightarrow> (nat \<Rightarrow> real) \<Rightarrow> error + (pyfloat list \<times> cycle_row list option)" where
  "sim_bursty_oscillation_features eval_sees_locals n_seconds fs freq rdsym_arg enter_burst leave_burst
     cycle_features_arg return_cycle_df n_tries rand randn =
     ebind (sim_table eval_sees_locals n_seconds fs freq rdsym_arg enter_burst leave_burst cycle_features_arg
              n_tries rand randn)
       (\<lambda>(n_samples, df0).
         let df = filter (\<lambda>row. start_sample row < n_samples) df0
         in ebind (sim_cycles df) (\<lambda>sig0.
              let sig = py_upto sig0 n_samples
              in if return_cycle_df
                 then (if df = [] then Inl IndexError
                       else Inr (normalize sig, Some (butlast df)))
                 else Inr (normalize sig, None)))"

subsection \<open>Predicates used in the statements\<close>

text \<open>A row passes the validity test of the sampler (line 303): a positive period and, for
  a row that is not \<^verbatim>\<open>False\<close>, a positive amplitude and a symmetry strictly between 0
  and 1.\<close>

definition valid_row :: "cycle_row \<Rightarrow> bool" where
  "valid_row row =
     (0 < period row \<and>
      (if is_cycle row = Some False then True
       else fgt (amp row) 0 \<and> fgt (rdsym row) 0 \<and> flt (rdsym row) 1))"

text \<open>\<open>entry_ok n prev rows\<close>: with \<open>n\<close> samples emitted so far and the previous row
  oscillating or not (\<open>prev\<close>), every row of \<open>rows\<close> that enters a burst finds at least
  \<open>\<lfloor>period / 4\<rfloor> - 1\<close> samples already emitted, each row counting for \<open>period\<close> samples.\<close>

fun entry_ok :: "int \<Rightarrow> bool \<Rightarrow> cycle_row list \<Rightarrow> bool" where
  "entry_ok n prev [] = True"
| "entry_ok n prev (row # rows) =
     ((if is_cycle row = Some False \<or> prev then True else period row div 4 - 1 \<le> n)
      \<and> entry_ok (n + period row) (is_cycle row \<noteq> Some False) rows)"

text \<open>The symmetry of an oscillating row is a number in \<open>[0, 1]\<close>.\<close>

definition rdsym_in_unit :: "cycle_row \<Rightarrow> bool" where
  "rdsym_in_unit row =
     (if is_cycle row = Some False then True
      else (case rdsym row of NaN \<Rightarrow> False | Fin r \<Rightarrow> 0 \<le> r \<and> r \<le> 1))"

text \<open>What the sampler stores for one slot. For a \<^verbatim>\<open>False\<close> slot the period is the
  truncation of \<open>period_mean + draw * period_std\<close>, and amplitude and symmetry are NaN. For
  any other slot there are burst means (the configured means moved by one draw each) and
  an accepted attempt \<open>(x, y, z)\<close> around them that passes the test of line 303; the period
  is the truncation of \<open>x\<close>, amplitude and symmetry are \<open>y\<close> and \<open>z\<close> themselves.\<close>

definition slot_spec ::
  "cycle_features \<Rightarrow> (nat \<Rightarrow> real) \<Rightarrow> bool option \<Rightarrow> int \<Rightarrow> pyfloat \<Rightarrow> pyfloat \<Rightarrow> bool" where
  "slot_spec cf randn f p a r =
     (if f = Some False
      then (\<exists>k. p = trunc (period_mean cf + randn k * period_std cf)) \<and> a = NaN \<and> r = NaN
      else (\<exists>j k x y z.
              x = (period_mean cf + randn j * period_burst_std cf) + randn k * period_std cf
            \<and> y = (amp_mean cf + randn (j + 1) * amp_burst_std cf) + randn (k + 1) * amp_std cf
            \<and> z = (rdsym_mean cf + randn (j + 2) * rdsym_burst_std cf)
                    + randn (k + 2) * rdsym_std cf
            \<and> 0 < x \<and> 0 < y \<and> 0 < z \<and> z < 1
            \<and> p = trunc x \<and> a = Fin y \<and> r = Fin z))"

text \<open>The invariant of \<^verbatim>\<open>cur_burst\<close>: once bound it is either all NaN or holds burst means
  drawn around the configured means.\<close>

definition burst_inv :: "cycle_features \<Rightarrow> (nat \<Rightarrow> real) \<Rightarrow> sampler_state \<Rightarrow> bool" where
  "burst_inv cf randn s =
     (case cur_burst s of
        None \<Rightarrow> True
      | Some cb \<Rightarrow>
          cb = \<lparr>burst_period_mean = NaN, burst_amp_mean = NaN, burst_rdsym_mean = NaN\<rparr>
          \<or> (\<exists>j. cb = \<lparr>burst_period_mean =
                            Fin (period_mean cf + randn j * period_burst_std cf),
                          burst_amp_mean =
                            Fin (amp_mean cf + randn (j + 1) * amp_burst_std cf),
                          burst_rdsym_mean =
                            Fin (rdsym_mean cf + randn (j + 2) * rdsym_burst_std cf)\<rparr>))"

section \<open>Properties\<close>

subsection \<open>Basic facts\<close>

lemma ebind_Inl [simp]: "ebind (Inl e) f = Inl e"
  by (simp add: ebind_def)

lemma ebind_Inr [simp]: "ebind (Inr x) f = f x"
  by (simp add: ebind_def)

lemma ebind_eq_Inr: "ebind m f = Inr y \<longleftrightarrow> (\<exists>x. m = Inr x \<and> f x = Inr y)"
  by (cases m) simp_all

lemma ebind_eq_Inl: "ebind m f = Inl e \<longleftrightarrow> (m = Inl e \<or> (\<exists>x. m = Inr x \<and> f x = Inl e))"
  by (cases m) simp_all

subsection \<open>The burst state generator\<close>

lemma is_osc_loop_length:
  "length (is_osc_loop e l r ii k xs) = length xs"
  by (induction k arbitrary: ii xs) (simp_all add: Let_def)

lemma is_osc_loop_below:
  "j < ii \<Longrightarrow> is_osc_loop e l r ii k xs ! j = xs ! j"
  by (induction k arbitrary: ii xs) (simp_all add: Let_def)

lemma is_osc_loop_step:
  "\<lbrakk>1 \<le> ii; ii \<le> j; j < ii + k; ii + k \<le> length xs\<rbrakk> \<Longrightarrow>
     is_osc_loop e l r ii k xs ! j =
       Some (if truthy (is_osc_loop e l r ii k xs ! (j - 1)) then r (j - 1) > l else r (j - 1) < e)"
proof (induction k arbitrary: ii xs)
  case 0
  then show ?case by simp
next
  case (Suc k)
  let ?v = "if truthy (xs ! (ii - 1)) then Some (r (ii - 1) > l) else Some (r (ii - 1) < e)"
  let ?xs = "xs[ii := ?v]"
  have unfold: "is_osc_loop e l r ii (Suc k) xs = is_osc_loop e l r (Suc ii) k ?xs"
    by (simp add: Let_def)
  show ?case
  proof (cases "j = ii")
    case True
    have a: "is_osc_loop e l r (Suc ii) k ?xs ! ii = ?xs ! ii"
      by (rule is_osc_loop_below) simp
    have b: "is_osc_loop e l r (Suc ii) k ?xs ! (ii - 1) = ?xs ! (ii - 1)"
      by (rule is_osc_loop_below) simp
    have c: "?xs ! ii = ?v" using Suc.prems by simp
    have d: "?xs ! (ii - 1) = xs ! (ii - 1)" using Suc.prems by simp
    show ?thesis unfolding unfold True a b c d by simp
  next
    case False
    with Suc.prems have "1 \<le> Suc ii" "Suc ii \<le> j" "j < Suc ii + k" "Suc ii + k \<le> length ?xs"
      by simp_all
    from Suc.IH[OF this] show ?thesis unfolding unfold .
  qed
qed

lemma is_osc_loop_Some:
  "\<lbrakk>ii \<le> j; j < ii + k; ii + k \<le> length xs\<rbrakk> \<Longrightarrow> is_osc_loop e l r ii k xs ! j \<noteq> None"
proof (induction k arbitrary: ii xs)
  case 0
  then show ?case by simp
next
  case (Suc k)
  let ?v = "if truthy (xs ! (ii - 1)) then Some (r (ii - 1) > l) else Some (r (ii - 1) < e)"
  let ?xs = "xs[ii := ?v]"
  have unfold: "is_osc_loop e l r ii (Suc k) xs = is_osc_loop e l r (Suc ii) k ?xs"
    by (simp add: Let_def)
  show ?case
  proof (cases "j = ii")
    case True
    have a: "is_osc_loop e l r (Suc ii) k ?xs ! ii = ?xs ! ii"
      by (rule is_osc_loop_below) simp
    have c: "?xs ! ii = ?v" using Suc.prems by simp
    show ?thesis unfolding unfold True a c by simp
  next
    case False
    with Suc.prems have "Suc ii \<le> j" "j < Suc ii + k" "Suc ii + k \<le> length ?xs"
      by simp_all
    from Suc.IH[OF this] show ?thesis unfolding unfold .
  qed
qed

text \<open>C7: for \<open>n_cycles \<ge> 1\<close> the burst state generator returns exactly \<open>n_cycles\<close> flags,
  all of them booleans, the first one \<^verbatim>\<open>False\<close>; and for every slot \<open>i \<ge> 1\<close>, with
  \<open>u = rand (i - 1)\<close> the \<open>i\<close>-th uniform draw, the flag is \<open>u > leave_burst\<close> when the
  previous flag is \<^verbatim>\<open>True\<close> and \<open>u < enter_burst\<close> when it is \<^verbatim>\<open>False\<close>. The two
  probabilities need not lie in \<open>[0,1]\<close> for this.\<close>

theorem make_is_osc_flags:
  assumes "1 \<le> n_cycles"
  shows "\<exists>flags. make_is_osc n_cycles enter_burst leave_burst rand = Inr flags
           \<and> length flags = nat n_cycles
           \<and> (\<forall>i < nat n_cycles. flags ! i \<noteq> None)
           \<and> flags ! 0 = Some False
           \<and> (\<forall>i. 1 \<le> i \<and> i < nat n_cycles \<longrightarrow>
                 flags ! i = Some (if truthy (flags ! (i - 1)) then rand (i - 1) > leave_burst
                                   else rand (i - 1) < enter_burst))"
proof -
  let ?n = "nat n_cycles"
  let ?xs = "(replicate ?n (None :: bool option))[0 := Some False]"
  let ?fl = "is_osc_loop enter_burst leave_burst rand 1 (?n - 1) ?xs"
  from assms have n: "0 < ?n" by simp
  then have eq: "make_is_osc n_cycles enter_burst leave_burst rand = Inr ?fl"
    by (simp add: make_is_osc_def)
  have len: "length ?fl = ?n" by (simp add: is_osc_loop_length)
  have zero: "?fl ! 0 = Some False"
    using n by (simp add: is_osc_loop_below)
  have some: "?fl ! i \<noteq> None" if "i < ?n" for i
  proof (cases "i = 0")
    case True
    then show ?thesis using zero by simp
  next
    case False
    with that n show ?thesis by (intro is_osc_loop_Some) simp_all
  qed
  have step: "?fl ! i = Some (if truthy (?fl ! (i - 1)) then rand (i - 1) > leave_burst
                                else rand (i - 1) < enter_burst)"
    if "1 \<le> i" "i < ?n" for i
    using that n by (intro is_osc_loop_step) simp_all
  from eq len zero some step show ?thesis by blast
qed

theorem make_is_osc_flags_witness:
  "(1::int) \<le> 3 \<and> make_is_osc 3 1 0 (\<lambda>_. 1 / 2) = Inr [Some False, Some True, Some True]
   \<and> (\<exists>flags. make_is_osc 3 1 0 (\<lambda>_. 1 / 2) = Inr flags \<and> length flags = 3
         \<and> flags ! 0 = Some False \<and> flags ! 1 = Some ((1 / 2 :: real) < 1)
         \<and> flags ! 2 = Some ((0 :: real) < 1 / 2))"
proof -
  have h: "(1::int) \<le> 3" by simp
  have e: "make_is_osc 3 1 0 (\<lambda>_. 1 / 2) = Inr [Some False, Some True, Some True]"
    by (simp add: make_is_osc_def numeral_3_eq_3)
  from make_is_osc_flags[OF h, of 1 0 "\<lambda>_. 1 / 2"] e h show ?thesis
    by simp
qed

subsection \<open>The feature sampler\<close>

lemma try_features_True:
  "try_features n cf cb rn k vs = (True, res, k') \<Longrightarrow>
     \<exists>j p a r. res = Some (p, a, r)
       \<and> p = fop (+) (burst_period_mean cb) (Fin (rn j * period_std cf))
       \<and> a = fop (+) (burst_amp_mean cb) (Fin (rn (j + 1) * amp_std cf))
       \<and> r = fop (+) (burst_rdsym_mean cb) (Fin (rn (j + 2) * rdsym_std cf))
       \<and> fgt p 0 \<and> fgt a 0 \<and> fgt r 0 \<and> flt r 1"
proof (induction n arbitrary: k vs)
  case 0
  then show ?case by simp
next
  case (Suc n)
  show ?case
  proof (cases "fgt (fop (+) (burst_period_mean cb) (Fin (rn k * period_std cf))) 0
        \<and> fgt (fop (+) (burst_amp_mean cb) (Fin (rn (k + 1) * amp_std cf))) 0
        \<and> fgt (fop (+) (burst_rdsym_mean cb) (Fin (rn (k + 2) * rdsym_std cf))) 0
        \<and> flt (fop (+) (burst_rdsym_mean cb) (Fin (rn (k + 2) * rdsym_std cf))) 1")
    case True
    with Suc.prems show ?thesis
      by (intro exI[of _ k]) (simp add: Let_def)
  next
    case False
    with Suc.prems have "try_features n cf cb rn (k + 3)
        (Some (fop (+) (burst_period_mean cb) (Fin (rn k * period_std cf)),
               fop (+) (burst_amp_mean cb) (Fin (rn (k + 1) * amp_std cf)),
               fop (+) (burst_rdsym_mean cb) (Fin (rn (k + 2) * rdsym_std cf)))) = (True, res, k')"
      by (auto simp: Let_def split: if_splits)
    from Suc.IH[OF this] show ?thesis .
  qed
qed

lemma store_cycle_Inr:
  "store_cycle ind p a r s = Inr s' \<Longrightarrow>
     \<exists>x. p = Fin x \<and> ind < length (periods s) \<and> ind < length (amps s) \<and> ind < length (rdsyms s)
       \<and> s' = s\<lparr>periods := (periods s)[ind := trunc x], amps := (amps s)[ind := a],
                 rdsyms := (rdsyms s)[ind := r]\<rparr>"
  by (cases p) (auto simp: store_cycle_def in_int64_def split: if_splits)

lemma cycle_body_False:
  "cycle_body ev cf nt rn ind (Some False) s = Inr s' \<Longrightarrow>
     ind < length (periods s) \<and> ind < length (amps s) \<and> ind < length (rdsyms s)
     \<and> periods s' = (periods s)[ind := trunc (period_mean cf + rn (pos s) * period_std cf)]
     \<and> amps s' = (amps s)[ind := NaN] \<and> rdsyms s' = (rdsyms s)[ind := NaN]
     \<and> cur_burst s' = Some \<lparr>burst_period_mean = NaN, burst_amp_mean = NaN, burst_rdsym_mean = NaN\<rparr>"
  by (auto simp: cycle_body_def Let_def dest!: store_cycle_Inr)

lemma cycle_body_osc:
  assumes "cycle_body ev cf nt rn ind f s = Inr s'" and "f \<noteq> Some False"
    and inv: "burst_inv cf rn s"
  shows "\<exists>j k x y z.
           x = (period_mean cf + rn j * period_burst_std cf) + rn k * period_std cf
         \<and> y = (amp_mean cf + rn (j + 1) * amp_burst_std cf) + rn (k + 1) * amp_std cf
         \<and> z = (rdsym_mean cf + rn (j + 2) * rdsym_burst_std cf) + rn (k + 2) * rdsym_std cf
         \<and> 0 < x \<and> 0 < y \<and> 0 < z \<and> z < 1
         \<and> ind < length (periods s) \<and> ind < length (amps s) \<and> ind < length (rdsyms s)
         \<and> periods s' = (periods s)[ind := trunc x]
         \<and> amps s' = (amps s)[ind := Fin y] \<and> rdsyms s' = (rdsyms s)[ind := Fin z]
         \<and> cur_burst s' = Some \<lparr>burst_period_mean =
                            Fin (period_mean cf + rn j * period_burst_std cf),
                          burst_amp_mean =
                            Fin (amp_mean cf + rn (j + 1) * amp_burst_std cf),
                          burst_rdsym_mean =
                            Fin (rdsym_mean cf + rn (j + 2) * rdsym_burst_std cf)\<rparr>"
proof -
  let ?means = "\<lambda>j. \<lparr>burst_period_mean = Fin (period_mean cf + rn j * period_burst_std cf),
                      burst_amp_mean = Fin (amp_mean cf + rn (j + 1) * amp_burst_std cf),
                      burst_rdsym_mean = Fin (rdsym_mean cf + rn (j + 2) * rdsym_burst_std cf)\<rparr>"
  from assms obtain cb where cb: "cur_burst s = Some cb"
    by (cases "cur_burst s") (simp_all add: cycle_body_def)
  obtain cb' k where sb: "start_burst cf rn cb (pos s) = (cb', k)"
    by fastforce
  obtain b res k' where tr: "try_features (nat nt) cf cb' rn k (cur_vars s) = (b, res, k')"
    by (metis prod_cases3)
  from assms(1,2)
  have body: "(case (b, res, k') of
                  (True, Some (p0, a0, r0), k') \<Rightarrow>
                    store_cycle ind p0 a0 r0
                      (s\<lparr>cur_burst := Some cb', cur_vars := Some (p0, a0, r0),
                          pos := k'\<rparr>)
                | (True, None, k') \<Rightarrow> Inl (NameError ''period'')
                | (False, Some (p0, a0, r0), k') \<Rightarrow>
                    if ev then Inl (InvalidFeature (features_invalid p0 a0 r0))
                    else Inl (NameError ''period'')
                | (False, None, k') \<Rightarrow> Inl (NameError ''period'')) = Inr s'"
    by (simp add: cycle_body_def cb sb tr)
  then obtain p a r where b: "b" and res: "res = Some (p, a, r)"
    and st: "store_cycle ind p a r
               (s\<lparr>cur_burst := Some cb', cur_vars := Some (p, a, r), pos := k'\<rparr>) = Inr s'"
    by (cases b; cases res) (auto split: if_splits)
  from store_cycle_Inr[OF st] obtain x where px: "p = Fin x"
    and bounds: "ind < length (periods s)" "ind < length (amps s)" "ind < length (rdsyms s)"
    and upd: "periods s' = (periods s)[ind := trunc x]"
     "amps s' = (amps s)[ind := a]" "rdsyms s' = (rdsyms s)[ind := r]" "cur_burst s' = Some cb'"
    by auto
  from inv cb have "isnan (burst_period_mean cb) \<or> (\<exists>j. cb = ?means j)"
    by (auto simp: burst_inv_def)
  with sb obtain j where j: "cb' = ?means j"
    by (auto simp: start_burst_def split: if_splits)
  have tr': "try_features (nat nt) cf cb' rn k (cur_vars s) = (True, Some (p, a, r), k')"
    using tr b res by simp
  from try_features_True[OF tr'] obtain m where
    p: "p = fop (+) (burst_period_mean cb') (Fin (rn m * period_std cf))"
    and a: "a = fop (+) (burst_amp_mean cb') (Fin (rn (m + 1) * amp_std cf))"
    and r: "r = fop (+) (burst_rdsym_mean cb') (Fin (rn (m + 2) * rdsym_std cf))"
    and ok: "fgt p 0" "fgt a 0" "fgt r 0" "flt r 1"
    by auto
  let ?x = "(period_mean cf + rn j * period_burst_std cf) + rn m * period_std cf"
  let ?y = "(amp_mean cf + rn (j + 1) * amp_burst_std cf) + rn (m + 1) * amp_std cf"
  let ?z = "(rdsym_mean cf + rn (j + 2) * rdsym_burst_std cf) + rn (m + 2) * rdsym_std cf"
  have p': "p = Fin ?x" and a': "a = Fin ?y" and r': "r = Fin ?z"
    using p a r j by simp_all
  have x: "x = ?x" using px p' by simp
  have pos: "0 < ?x" "0 < ?y" "0 < ?z" "?z < 1"
    using ok unfolding p' a' r' by simp_all
  show ?thesis
    apply (rule exI[of _ j], rule exI[of _ m], rule exI[of _ ?x], rule exI[of _ ?y],
        rule exI[of _ ?z])
    using pos bounds upd x a' r' j by simp
qed

lemma cycle_body_spec:
  assumes "cycle_body ev cf nt rn ind f s = Inr s'" and "burst_inv cf rn s"
  shows "burst_inv cf rn s' \<and> cur_burst s' \<noteq> None
       \<and> ind < length (periods s) \<and> ind < length (amps s) \<and> ind < length (rdsyms s)
       \<and> (\<exists>p a r. periods s' = (periods s)[ind := p] \<and> amps s' = (amps s)[ind := a]
              \<and> rdsyms s' = (rdsyms s)[ind := r] \<and> slot_spec cf rn f p a r)"
proof (cases "f = Some False")
  case True
  from cycle_body_False[OF assms(1)[unfolded True]] show ?thesis
    unfolding True by (auto simp: burst_inv_def slot_spec_def)
next
  case False
  from cycle_body_osc[OF assms(1) False assms(2)] obtain j k x y z where
      "x = (period_mean cf + rn j * period_burst_std cf) + rn k * period_std cf"
      "y = (amp_mean cf + rn (j + 1) * amp_burst_std cf) + rn (k + 1) * amp_std cf"
      "z = (rdsym_mean cf + rn (j + 2) * rdsym_burst_std cf) + rn (k + 2) * rdsym_std cf"
      "0 < x" "0 < y" "0 < z" "z < 1"
    and bounds: "ind < length (periods s)" "ind < length (amps s)" "ind < length (rdsyms s)"
    and upd: "periods s' = (periods s)[ind := trunc x]"
      "amps s' = (amps s)[ind := Fin y]" "rdsyms s' = (rdsyms s)[ind := Fin z]"
    and cb: "cur_burst s' = Some \<lparr>burst_period_mean =
                            Fin (period_mean cf + rn j * period_burst_std cf),
                          burst_amp_mean =
                            Fin (amp_mean cf + rn (j + 1) * amp_burst_std cf),
                          burst_rdsym_mean =
                            Fin (rdsym_mean cf + rn (j + 2) * rdsym_burst_std cf)\<rparr>"
    by blast
  then have "slot_spec cf rn f (trunc x) (Fin y) (Fin z)"
    unfolding slot_spec_def using False by auto
  moreover have "burst_inv cf rn s'"
    unfolding burst_inv_def cb by auto
  ultimately show ?thesis using bounds upd cb by auto
qed

lemma cycle_loop_spec:
  "cycle_loop ev cf nt rn ind fl s = Inr s' \<Longrightarrow> burst_inv cf rn s \<Longrightarrow>
     length (periods s') = length (periods s) \<and> length (amps s') = length (amps s)
   \<and> length (rdsyms s') = length (rdsyms s)
   \<and> (\<forall>i < ind. periods s' ! i = periods s ! i \<and> amps s' ! i = amps s ! i
                 \<and> rdsyms s' ! i = rdsyms s ! i)
   \<and> (\<forall>i < length fl. slot_spec cf rn (fl ! i) (periods s' ! (ind + i)) (amps s' ! (ind + i))
                          (rdsyms s' ! (ind + i)))"
proof (induction fl arbitrary: ind s)
  case Nil
  then show ?case by simp
next
  case (Cons f fl)
  from Cons.prems(1) obtain s1 where b: "cycle_body ev cf nt rn ind f s = Inr s1"
    and l: "cycle_loop ev cf nt rn (Suc ind) fl s1 = Inr s'"
    by (auto simp: ebind_eq_Inr)
  from cycle_body_spec[OF b Cons.prems(2)] obtain p a r where
    inv1: "burst_inv cf rn s1"
    and bounds: "ind < length (periods s)" "ind < length (amps s)" "ind < length (rdsyms s)"
    and upd: "periods s1 = (periods s)[ind := p]" "amps s1 = (amps s)[ind := a]"
      "rdsyms s1 = (rdsyms s)[ind := r]"
    and slot: "slot_spec cf rn f p a r"
    by blast
  note IH = Cons.IH[OF l inv1]
  have at_ind: "periods s' ! ind = p" "amps s' ! ind = a" "rdsyms s' ! ind = r"
    using IH bounds upd by simp_all
  have below: "periods s' ! i = periods s ! i \<and> amps s' ! i = amps s ! i
                 \<and> rdsyms s' ! i = rdsyms s ! i" if "i < ind" for i
    using IH that upd by simp
  have slots: "slot_spec cf rn ((f # fl) ! i) (periods s' ! (ind + i)) (amps s' ! (ind + i))
                          (rdsyms s' ! (ind + i))" if "i < length (f # fl)" for i
  proof (cases i)
    case 0
    then show ?thesis using slot at_ind by simp
  next
    case (Suc i')
    with that have "i' < length fl" by simp
    with IH have "slot_spec cf rn (fl ! i') (periods s' ! (Suc ind + i')) (amps s' ! (Suc ind + i'))
                          (rdsyms s' ! (Suc ind + i'))" by blast
    then show ?thesis using Suc by simp
  qed
  from IH upd bounds below slots show ?case by simp
qed

lemma determine_cycle_properties_spec:
  assumes "determine_cycle_properties ev flags cf nt rn = Inr (ps, as, rs)"
  shows "length ps = length flags \<and> length as = length flags \<and> length rs = length flags
       \<and> (\<forall>i < length flags. slot_spec cf rn (flags ! i) (ps ! i) (as ! i) (rs ! i))"
proof -
  let ?s0 = "\<lparr>periods = replicate (length flags) 0, amps = replicate (length flags) (Fin 0),
                rdsyms = replicate (length flags) (Fin 0), cur_burst = None, cur_vars = None,
                pos = 0\<rparr>"
  from assms obtain s' where l: "cycle_loop ev cf nt rn 0 flags ?s0 = Inr s'"
    and r: "ps = periods s'" "as = amps s'" "rs = rdsyms s'"
    by (auto simp: determine_cycle_properties_def Let_def ebind_eq_Inr)
  have "burst_inv cf rn ?s0" by (simp add: burst_inv_def)
  from cycle_loop_spec[OF l this] show ?thesis unfolding r by simp
qed

lemma store_cycle_error:
  "store_cycle ind p a r s = Inl e \<Longrightarrow>
     e = IndexError \<or> e = OverflowError \<or> (\<exists>m. e = ValueError m)"
  by (cases p) (auto simp: store_cycle_def in_int64_def split: if_splits)

lemma store_cycle_cur_burst:
  "store_cycle ind p a r s = Inr s' \<Longrightarrow> cur_burst s' = cur_burst s"
  by (auto dest!: store_cycle_Inr)

lemma cycle_body_cur_burst:
  assumes "cycle_body ev cf nt rn ind f s = Inr s'"
  shows "cur_burst s' \<noteq> None"
proof (cases "f = Some False")
  case True
  with assms show ?thesis
    by (auto simp: cycle_body_def Let_def dest!: store_cycle_cur_burst)
next
  case False
  from assms False obtain cb where cb: "cur_burst s = Some cb"
    by (cases "cur_burst s") (simp_all add: cycle_body_def)
  obtain cb' k where sb: "start_burst cf rn cb (pos s) = (cb', k)"
    by fastforce
  obtain b res k' where tr: "try_features (nat nt) cf cb' rn k (cur_vars s) = (b, res, k')"
    by (metis prod_cases3)
  from assms False
  have "(case (b, res, k') of
                  (True, Some (p0, a0, r0), k') \<Rightarrow>
                    store_cycle ind p0 a0 r0
                      (s\<lparr>cur_burst := Some cb', cur_vars := Some (p0, a0, r0),
                          pos := k'\<rparr>)
                | (True, None, k') \<Rightarrow> Inl (NameError ''period'')
                | (False, Some (p0, a0, r0), k') \<Rightarrow>
                    if ev then Inl (InvalidFeature (features_invalid p0 a0 r0))
                    else Inl (NameError ''period'')
                | (False, None, k') \<Rightarrow> Inl (NameError ''period'')) = Inr s'"
    by (simp add: cycle_body_def cb sb tr)
  then show ?thesis
    by (cases b; cases res) (auto dest!: store_cycle_cur_burst split: if_splits)
qed

lemma cycle_body_bound:
  assumes "cur_burst s \<noteq> None \<or> f = Some False"
  shows "cycle_body ev cf nt rn ind f s \<noteq> Inl (UnboundLocalError v)"
proof (cases "f = Some False")
  case True
  then show ?thesis
    by (auto simp: cycle_body_def Let_def dest!: store_cycle_error)
next
  case False
  with assms obtain cb where cb: "cur_burst s = Some cb"
    by auto
  obtain cb' k where sb: "start_burst cf rn cb (pos s) = (cb', k)"
    by fastforce
  obtain b res k' where tr: "try_features (nat nt) cf cb' rn k (cur_vars s) = (b, res, k')"
    by (metis prod_cases3)
  have "cycle_body ev cf nt rn ind f s = (case (b, res, k') of
                  (True, Some (p0, a0, r0), k') \<Rightarrow>
                    store_cycle ind p0 a0 r0
                      (s\<lparr>cur_burst := Some cb', cur_vars := Some (p0, a0, r0),
                          pos := k'\<rparr>)
                | (True, None, k') \<Rightarrow> Inl (NameError ''period'')
                | (False, Some (p0, a0, r0), k') \<Rightarrow>
                    if ev then Inl (InvalidFeature (features_invalid p0 a0 r0))
                    else Inl (NameError ''period'')
                | (False, None, k') \<Rightarrow> Inl (NameError ''period''))"
    using False by (simp add: cycle_body_def cb sb tr)
  then show ?thesis
    by (cases b; cases res) (auto dest!: store_cycle_error split: if_splits)
qed

lemma cycle_body_unbound:
  "cur_burst s = None \<Longrightarrow> f \<noteq> Some False \<Longrightarrow>
     cycle_body ev cf nt rn ind f s = Inl (UnboundLocalError ''cur_burst'')"
  by (simp add: cycle_body_def)

lemma cycle_loop_bound:
  "cur_burst s \<noteq> None \<or> (\<exists>rest. fl = Some False # rest) \<or> fl = [] \<Longrightarrow>
     cycle_loop ev cf nt rn ind fl s \<noteq> Inl (UnboundLocalError v)"
proof (induction fl arbitrary: ind s)
  case Nil
  then show ?case by simp
next
  case (Cons f fl)
  then have pre: "cur_burst s \<noteq> None \<or> f = Some False" by auto
  show ?case
  proof (cases "cycle_body ev cf nt rn ind f s")
    case (Inl e)
    with cycle_body_bound[OF pre, of ev cf nt rn ind v] show ?thesis by simp
  next
    case (Inr s1)
    from cycle_body_cur_burst[OF Inr] have "cur_burst s1 \<noteq> None" .
    then have "cycle_loop ev cf nt rn (Suc ind) fl s1 \<noteq> Inl (UnboundLocalError v)"
      by (intro Cons.IH) simp
    with Inr show ?thesis by simp
  qed
qed

lemma make_is_osc_Inr:
  assumes "make_is_osc n e l r = Inr flags"
  shows "0 < n \<and> length flags = nat n \<and> flags ! 0 = Some False"
proof -
  from assms have n: "0 < nat n"
    by (auto simp: make_is_osc_def split: if_splits)
  with assms have "flags = is_osc_loop e l r 1 (nat n - 1) ((replicate (nat n) None)[0 := Some False])"
    by (auto simp: make_is_osc_def split: if_splits)
  with n show ?thesis
    by (simp add: is_osc_loop_length is_osc_loop_below)
qed

lemma make_is_osc_hd:
  assumes "make_is_osc n e l r = Inr flags"
  shows "\<exists>rest. flags = Some False # rest"
proof -
  from make_is_osc_Inr[OF assms] have "length flags \<noteq> 0" "flags ! 0 = Some False" by auto
  then show ?thesis by (cases flags) auto
qed

text \<open>C10: the sampler reads \<^verbatim>\<open>cur_burst\<close> only after it is bound when the first flag is
  \<^verbatim>\<open>False\<close>, in particular on every flag list that \<^verbatim>\<open>_make_is_osc\<close> returns; when the
  first flag is anything else (\<^verbatim>\<open>True\<close> or \<^verbatim>\<open>None\<close>), the first iteration reads the unbound
  \<^verbatim>\<open>cur_burst\<close> and the call ends in \<^verbatim>\<open>UnboundLocalError\<close>.\<close>

theorem cur_burst_read_after_bound:
  "determine_cycle_properties ev (Some False # rest) cf n_tries randn
     \<noteq> Inl (UnboundLocalError ''cur_burst'')
   \<and> (make_is_osc n_cycles enter_burst leave_burst rand = Inr flags \<longrightarrow>
        determine_cycle_properties ev flags cf n_tries randn \<noteq> Inl (UnboundLocalError ''cur_burst''))
   \<and> (f \<noteq> Some False \<longrightarrow>
        determine_cycle_properties ev (f # rest) cf n_tries randn
          = Inl (UnboundLocalError ''cur_burst''))"
proof -
  have a: "determine_cycle_properties ev (Some False # fl) cf n_tries randn
             \<noteq> Inl (UnboundLocalError ''cur_burst'')" for fl
    using cycle_loop_bound[of _ "Some False # fl" ev cf n_tries randn 0 "''cur_burst''"]
    by (auto simp: determine_cycle_properties_def Let_def ebind_eq_Inl simp del: cycle_loop.simps)
  have b: "determine_cycle_properties ev flags cf n_tries randn \<noteq> Inl (UnboundLocalError ''cur_burst'')"
    if "make_is_osc n_cycles enter_burst leave_burst rand = Inr flags"
    using make_is_osc_hd[OF that] a by auto
  have c: "determine_cycle_properties ev (f # rest) cf n_tries randn
          = Inl (UnboundLocalError ''cur_burst'')" if "f \<noteq> Some False"
    using that by (simp add: determine_cycle_properties_def Let_def cycle_body_unbound)
  from a b c show ?thesis by blast
qed

theorem cur_burst_read_after_bound_witness:
  "make_is_osc 2 1 0 (\<lambda>_. 1 / 2) = Inr [Some False, Some True]
   \<and> determine_cycle_properties True [Some False, Some True]
        \<lparr>amp_mean = 1, amp_burst_std = 0, amp_std = 0, period_mean = 4, period_burst_std = 0,
         period_std = 0, rdsym_mean = 1 / 2, rdsym_burst_std = 0, rdsym_std = 0\<rparr> 5 (\<lambda>_. 0)
       \<noteq> Inl (UnboundLocalError ''cur_burst'')
   \<and> Some True \<noteq> Some False
   \<and> determine_cycle_properties True [Some True, Some True]
        \<lparr>amp_mean = 1, amp_burst_std = 0, amp_std = 0, period_mean = 4, period_burst_std = 0,
         period_std = 0, rdsym_mean = 1 / 2, rdsym_burst_std = 0, rdsym_std = 0\<rparr> 5 (\<lambda>_. 0)
       = Inl (UnboundLocalError ''cur_burst'')"
proof -
  have m: "make_is_osc 2 1 0 (\<lambda>_. 1 / 2) = Inr [Some False, Some True]"
    by (simp add: make_is_osc_def numeral_2_eq_2)
  from cur_burst_read_after_bound[of True "[Some True]"
      "\<lparr>amp_mean = 1, amp_burst_std = 0, amp_std = 0, period_mean = 4, period_burst_std = 0,
         period_std = 0, rdsym_mean = 1 / 2, rdsym_burst_std = 0, rdsym_std = 0\<rparr>" 5 "\<lambda>_. 0"
      2 1 0 "\<lambda>_. 1 / 2" "[Some False, Some True]" "Some True"] m
  show ?thesis by simp
qed

text \<open>C1 (the period part fails on the code): the test of line 303 is made on the sampled
  real period, and line 318 stores its truncation. With \<open>period_mean = 4\<close>,
  \<open>period_std = 1\<close> and the draw \<open>-7/2\<close> for the period of the oscillating cycle, the sampled
  period \<open>1/2\<close> passes the test and the record of the oscillating cycle holds period 0.\<close>

theorem oscillating_period_zero:
  "determine_cycle_properties True [Some False, Some True]
     \<lparr>amp_mean = 1, amp_burst_std = 0, amp_std = 0, period_mean = 4, period_burst_std = 0,
      period_std = 1, rdsym_mean = 1 / 2, rdsym_burst_std = 0, rdsym_std = 0\<rparr>
     5 (\<lambda>k. if k = 4 then - 7 / 2 else 0)
   = Inr ([4, 0], [NaN, Fin 1], [NaN, Fin (1 / 2)])
   \<and> determine_cycle_properties False [Some False, Some True]
     \<lparr>amp_mean = 1, amp_burst_std = 0, amp_std = 0, period_mean = 4, period_burst_std = 0,
      period_std = 1, rdsym_mean = 1 / 2, rdsym_burst_std = 0, rdsym_std = 0\<rparr>
     5 (\<lambda>k. if k = 4 then - 7 / 2 else 0)
   = Inr ([4, 0], [NaN, Fin 1], [NaN, Fin (1 / 2)])"
  by (simp add: determine_cycle_properties_def cycle_body_def store_cycle_def in_int64_def start_burst_def
      trunc_def numeral_eq_Suc)

text \<open>C2 (fails on the code): lines 310-311 list a feature only when it is below 0, or above
  1 for the symmetry, while the test of line 303 also rejects the values 0 and 1. With
  \<open>amp_mean = 0\<close> and no variation every attempt has amplitude 0 and is rejected. Where
  \<^verbatim>\<open>eval\<close> sees the locals, the error raised after the last attempt names no feature at
  all; where it does not, line 310 raises \<^verbatim>\<open>NameError\<close> and the error of line 313 is not
  raised.\<close>

theorem invalid_feature_not_named:
  "determine_cycle_properties True [Some False, Some True]
     \<lparr>amp_mean = 0, amp_burst_std = 0, amp_std = 0, period_mean = 4, period_burst_std = 0,
      period_std = 0, rdsym_mean = 1 / 2, rdsym_burst_std = 0, rdsym_std = 0\<rparr>
     3 (\<lambda>_. 0)
   = Inl (InvalidFeature [])
   \<and> determine_cycle_properties False [Some False, Some True]
     \<lparr>amp_mean = 0, amp_burst_std = 0, amp_std = 0, period_mean = 4, period_burst_std = 0,
      period_std = 0, rdsym_mean = 1 / 2, rdsym_burst_std = 0, rdsym_std = 0\<rparr>
     3 (\<lambda>_. 0)
   = Inl (NameError ''period'')"
  by (simp add: determine_cycle_properties_def cycle_body_def store_cycle_def in_int64_def start_burst_def
      trunc_def numeral_eq_Suc features_invalid_def)




subsection \<open>The data frame\<close>

lemma trunc_of_int [simp]: "trunc (of_int z) = z"
  by (simp add: trunc_def)

lemma trunc_nonneg: "0 \<le> x \<Longrightarrow> 0 \<le> trunc x"
  by (simp add: trunc_def)

lemma n_cycles_overestimate_Inr:
  "n_cycles_overestimate n m = Inr c \<Longrightarrow>
     m \<noteq> 0 \<and> c = \<lceil>real_of_int n / real_of_int m * 2\<rceil>"
  by (auto simp: n_cycles_overestimate_def split: if_splits)

lemma sim_flags_Inr:
  assumes "sim_flags n_seconds fs freq enter_burst leave_burst rand = Inr (m, n, flags)"
  shows "freq \<noteq> 0 \<and> m = trunc (fs / freq) \<and> m \<noteq> 0 \<and> n = trunc (n_seconds * fs)
       \<and> make_is_osc \<lceil>real_of_int n / real_of_int m * 2\<rceil> enter_burst leave_burst rand = Inr flags"
  using assms
  by (auto simp: sim_flags_def Let_def ebind_eq_Inr split: if_splits
      dest!: n_cycles_overestimate_Inr)

lemma sim_table_Inr:
  assumes "sim_table ev n_seconds fs freq rdsym_arg enter_burst leave_burst cfa n_tries rand randn
             = Inr (n, df)"
  shows "\<exists>m flags ps as rs.
           sim_flags n_seconds fs freq enter_burst leave_burst rand = Inr (m, n, flags)
         \<and> determine_cycle_properties ev flags (cycle_features_use m rdsym_arg cfa) n_tries randn
             = Inr (ps, as, rs)
         \<and> make_df flags ps as rs = Inr df"
  using assms
  by (auto simp: sim_table_def Let_def ebind_eq_Inr)

lemma cumsum_from_length [simp]: "length (cumsum_from a xs) = length xs"
  by (induction xs arbitrary: a) simp_all

lemma wrap64_zero [simp]: "wrap64 0 = 0"
  by (simp add: wrap64_def)

lemma wrap64_id: "in_int64 x \<Longrightarrow> wrap64 x = x"
  by (simp add: wrap64_def in_int64_def)

lemma wrap64_upper: "wrap64 x < 2 ^ 63"
proof -
  have "(x + 2 ^ 63) mod 2 ^ 64 < (2 ^ 64 :: int)" by simp
  then show ?thesis by (simp add: wrap64_def)
qed

lemma wrap64_add_left: "wrap64 (wrap64 a + b) = wrap64 (a + b)"
proof -
  define K :: int where "K = 2 ^ 63"
  define M :: int where "M = 2 ^ 64"
  have w: "wrap64 x = (x + K) mod M - K" for x
    by (simp add: wrap64_def K_def M_def)
  have "wrap64 a + b + K = (a + K) mod M + b" by (simp add: w)
  then have "(wrap64 a + b + K) mod M = ((a + K) mod M + b) mod M" by (rule arg_cong)
  also have "\<dots> = (a + K + b) mod M" by (rule mod_add_left_eq)
  also have "a + K + b = a + b + K" by simp
  finally show ?thesis by (simp add: w)
qed

lemma cumsum_from_nth:
  "i < length xs \<Longrightarrow> cumsum_from a xs ! i = wrap64 (a + sum_list (take (Suc i) xs))"
proof (induction xs arbitrary: a i)
  case Nil
  then show ?case by simp
next
  case (Cons x xs)
  show ?case
  proof (cases i)
    case 0
    then show ?thesis by simp
  next
    case (Suc j)
    with Cons.prems have "j < length xs" by simp
    from Cons.IH[OF this, of "wrap64 (a + x)"] Suc show ?thesis
      by (simp add: wrap64_add_left add.assoc)
  qed
qed

lemma starts_nth:
  assumes "i < length ps"
  shows "(0 # py_upto (cumsum ps) (- 1)) ! i = wrap64 (sum_list (take i ps))"
proof (cases i)
  case 0
  then show ?thesis by simp
next
  case (Suc j)
  with assms have "j < length ps - 1" by simp
  then have "py_upto (cumsum ps) (- 1) ! j = cumsum ps ! j"
    by (simp add: py_upto_def cumsum_def wrap64_def)
  also have "\<dots> = wrap64 (sum_list (take (Suc j) ps))"
    using Suc assms by (simp add: cumsum_def wrap64_def cumsum_from_nth)
  finally show ?thesis using Suc by simp
qed

lemma make_df_Inr:
  assumes "make_df fl ps as rs = Inr df"
  shows "length df = length fl \<and> length ps = length fl \<and> length as = length fl
       \<and> length rs = length fl \<and> fl \<noteq> []
       \<and> (\<forall>i < length fl. df ! i = \<lparr>is_cycle = fl ! i, period = ps ! i, amp = as ! i,
                                       rdsym = rs ! i, start_sample = wrap64 (sum_list (take i ps))\<rparr>)"
proof -
  from assms have len: "length ps = length fl" "length as = length fl" "length rs = length fl"
    and ne: "length (0 # py_upto (cumsum ps) (- 1)) = length fl"
    and df: "df = map (\<lambda>i. \<lparr>is_cycle = fl ! i, period = ps ! i, amp = as ! i, rdsym = rs ! i,
                             start_sample = (0 # py_upto (cumsum ps) (- 1)) ! i\<rparr>)
                    [0 ..< length fl]"
    by (auto simp: make_df_def Let_def split: if_splits)
  from ne have "fl \<noteq> []" by auto
  moreover have "df ! i = \<lparr>is_cycle = fl ! i, period = ps ! i, amp = as ! i,
                            rdsym = rs ! i, start_sample = wrap64 (sum_list (take i ps))\<rparr>"
    if "i < length fl" for i
    using that len by (simp add: df starts_nth)
  ultimately show ?thesis using len by (simp add: df)
qed

lemma slot_spec_period_nonneg:
  "slot_spec cf rn f p a r \<Longrightarrow> f \<noteq> Some False \<Longrightarrow> 0 \<le> p"
  by (auto simp: slot_spec_def intro!: trunc_nonneg)

text \<open>C6, as stated, fails: line 223 doubles the quotient before it takes the ceiling.
  For 1.5 seconds at 100 Hz and a frequency of 1 Hz there are 150 samples and a mean period
  of 100 samples; the code makes \<open>\<lceil>150 / 100 * 2\<rceil> = 3\<close> slots, not \<open>\<lceil>150 / 100\<rceil> * 2 = 4\<close>.\<close>

theorem slots_not_twice_ceiling:
  "sim_flags (3 / 2) 100 1 (1 / 5) (1 / 5) (\<lambda>_. 1 / 2)
     = Inr (100, 150, [Some False, Some False, Some False])
   \<and> \<lceil>real_of_int 150 / real_of_int 100\<rceil> * 2 = (4 :: int)"
  by (simp add: sim_flags_def n_cycles_overestimate_def make_is_osc_def trunc_def
      numeral_3_eq_3)

text \<open>C6, amended: whenever the flags are generated (lines 211-226 raise nothing), their
  number is \<open>\<lceil>n_samples / mean_period_samples * 2\<rceil>\<close>, the ceiling of twice the quotient,
  with \<open>n_samples = int(n_seconds * fs)\<close> and \<open>mean_period_samples = int(fs / freq)\<close>.\<close>

theorem slots_ceiling_of_twice:
  assumes "sim_flags n_seconds fs freq enter_burst leave_burst rand
             = Inr (mean_period_samples, n_samples, flags)"
  shows "n_samples = trunc (n_seconds * fs) \<and> mean_period_samples = trunc (fs / freq)
       \<and> int (length flags)
           = \<lceil>real_of_int n_samples / real_of_int mean_period_samples * 2\<rceil>"
proof -
  from sim_flags_Inr[OF assms]
  have n: "n_samples = trunc (n_seconds * fs)" and m: "mean_period_samples = trunc (fs / freq)"
    and mk: "make_is_osc \<lceil>real_of_int n_samples / real_of_int mean_period_samples * 2\<rceil>
               enter_burst leave_burst rand = Inr flags"
    by blast+
  from make_is_osc_Inr[OF mk]
  have "int (length flags) = \<lceil>real_of_int n_samples / real_of_int mean_period_samples * 2\<rceil>"
    by simp
  with n m show ?thesis by simp
qed

theorem slots_ceiling_of_twice_witness:
  "sim_flags (3 / 2) 100 1 (1 / 5) (1 / 5) (\<lambda>_. 1 / 2)
     = Inr (100, 150, [Some False, Some False, Some False])
   \<and> int (length [Some False, Some False, Some False])
       = \<lceil>real_of_int 150 / real_of_int 100 * 2\<rceil>"
proof -
  have e: "sim_flags (3 / 2) 100 1 (1 / 5) (1 / 5) (\<lambda>_. 1 / 2)
     = Inr (100, 150, [Some False, Some False, Some False])"
    by (simp add: sim_flags_def n_cycles_overestimate_def make_is_osc_def trunc_def
      numeral_3_eq_3)
  from slots_ceiling_of_twice[OF e] e show ?thesis by simp
qed

text \<open>C8 (the last part fails on the code): line 278 draws the period of a non-oscillating
  cycle and does not test it, where line 303 tests the period of an oscillating cycle. A
  non-oscillating period can so be negative, and then \<^verbatim>\<open>start_sample\<close> decreases. With
  \<open>period_std = 1\<close> and the draw \<open>-6\<close> for the third of four non-oscillating cycles of mean
  period 4, the periods are 4, 4, -2, 4 and the start samples 0, 4, 8, 6.\<close>

theorem start_sample_decreases:
  "sim_table True 1 8 2 (1 / 2) (1 / 5) (1 / 5) (Some [(''period_std'', 1)]) 5
      (\<lambda>_. 1 / 2) (\<lambda>k. if k = 2 then - 6 else 0)
     = Inr (8, [\<lparr>is_cycle = Some False, period = 4, amp = NaN, rdsym = NaN, start_sample = 0\<rparr>,
                \<lparr>is_cycle = Some False, period = 4, amp = NaN, rdsym = NaN, start_sample = 4\<rparr>,
                \<lparr>is_cycle = Some False, period = - 2, amp = NaN, rdsym = NaN, start_sample = 8\<rparr>,
                \<lparr>is_cycle = Some False, period = 4, amp = NaN, rdsym = NaN, start_sample = 6\<rparr>])
   \<and> \<not> sorted [0, 4, 8, 6 :: int]"
  by (simp add: sim_table_def sim_flags_def n_cycles_overestimate_def make_is_osc_def trunc_def
      cycle_features_use_def set_feature_def
      determine_cycle_properties_def cycle_body_def store_cycle_def in_int64_def
      make_df_def cumsum_def wrap64_def py_upto_def numeral_eq_Suc)


lemma sim_table_rows:
  assumes "sim_table ev n_seconds fs freq rdsym_arg enter_burst leave_burst cfa n_tries rand randn
             = Inr (n, df)"
  shows "\<exists>m flags ps as rs.
           sim_flags n_seconds fs freq enter_burst leave_burst rand = Inr (m, n, flags)
         \<and> length df = length flags \<and> length ps = length flags \<and> flags \<noteq> []
         \<and> (\<forall>i < length flags.
               df ! i = \<lparr>is_cycle = flags ! i, period = ps ! i, amp = as ! i, rdsym = rs ! i,
                          start_sample = wrap64 (sum_list (take i ps))\<rparr>
             \<and> slot_spec (cycle_features_use m rdsym_arg cfa) randn
                  (flags ! i) (ps ! i) (as ! i) (rs ! i))"
proof -
  from sim_table_Inr[OF assms] obtain m flags ps as rs where
    fl: "sim_flags n_seconds fs freq enter_burst leave_burst rand = Inr (m, n, flags)"
    and d: "determine_cycle_properties ev flags (cycle_features_use m rdsym_arg cfa) n_tries randn
             = Inr (ps, as, rs)"
    and mk: "make_df flags ps as rs = Inr df"
    by blast
  from make_df_Inr[OF mk] determine_cycle_properties_spec[OF d] fl
  show ?thesis by blast
qed

subsection \<open>The waveform synthesizer\<close>

lemma trunc_div4: "0 \<le> p \<Longrightarrow> trunc (real_of_int p / 4) = p div 4"
proof -
  assume "0 \<le> p"
  then have "trunc (real_of_int p / 4) = \<lfloor>real_of_int p / real_of_int 4\<rfloor>"
    by (simp add: trunc_def)
  also have "\<dots> = p div 4" by (rule floor_divide_of_int_eq)
  finally show ?thesis .
qed

lemma np_round_bounds: "\<exists>z. np_round x = of_int z \<and> \<lfloor>x\<rfloor> \<le> z \<and> z \<le> \<lceil>x\<rceil>"
proof (cases "x - of_int \<lfloor>x\<rfloor> < 1 / 2")
  case True
  then have "np_round x = of_int \<lfloor>x\<rfloor>" by (simp add: np_round_def Let_def)
  moreover have "\<lfloor>x\<rfloor> \<le> \<lceil>x\<rceil>" by (rule floor_le_ceiling)
  ultimately show ?thesis by blast
next
  case False
  then have "of_int \<lfloor>x\<rfloor> < x" by simp
  then have c: "\<lceil>x\<rceil> = \<lfloor>x\<rfloor> + 1" by linarith
  have "np_round x = of_int \<lfloor>x\<rfloor> \<or> np_round x = of_int (\<lfloor>x\<rfloor> + 1)"
    by (simp add: np_round_def Let_def)
  then show ?thesis
  proof
    assume "np_round x = of_int \<lfloor>x\<rfloor>"
    then show ?thesis using c by (intro exI[of _ "\<lfloor>x\<rfloor>"]) simp
  next
    assume "np_round x = of_int (\<lfloor>x\<rfloor> + 1)"
    then show ?thesis using c by (intro exI[of _ "\<lfloor>x\<rfloor> + 1"]) simp
  qed
qed

lemma rise_samples_bounds:
  assumes "0 \<le> p" "0 \<le> r" "r \<le> 1"
  shows "0 \<le> trunc (np_round (real_of_int p * r)) \<and> trunc (np_round (real_of_int p * r)) \<le> p"
proof -
  from np_round_bounds obtain z where z: "np_round (real_of_int p * r) = of_int z"
    and lo: "\<lfloor>real_of_int p * r\<rfloor> \<le> z" and hi: "z \<le> \<lceil>real_of_int p * r\<rceil>" by blast
  from assms have "0 \<le> real_of_int p * r" by simp
  then have "0 \<le> \<lfloor>real_of_int p * r\<rfloor>" by simp
  moreover from assms have "real_of_int p * r \<le> real_of_int p"
    by (simp add: mult_left_le)
  then have "\<lceil>real_of_int p * r\<rceil> \<le> p" by (simp add: ceiling_le_iff)
  ultimately have "0 \<le> z" "z \<le> p" using lo hi by linarith+
  moreover have "trunc (np_round (real_of_int p * r)) = z" using z by simp
  ultimately show ?thesis by simp
qed

lemma np_linspace_Inr:
  "np_linspace a b n = Inr l \<Longrightarrow> 0 \<le> n \<and> length l = nat n"
  by (auto simp: np_linspace_def split: if_splits)

lemma np_linspace_total:
  "0 \<le> n \<Longrightarrow> \<exists>l. np_linspace a b n = Inr l"
  by (simp add: np_linspace_def)

lemma np_zeros_Inr: "np_zeros n = Inr l \<Longrightarrow> 0 \<le> n \<and> length l = nat n"
  by (auto simp: np_zeros_def split: if_splits)

lemma np_zeros_total: "0 \<le> n \<Longrightarrow> \<exists>l. np_zeros n = Inr l"
  by (simp add: np_zeros_def)

lemma py_upto_from [simp]: "py_upto xs n @ py_from xs n = xs"
  by (simp add: py_upto_def py_from_def)

lemma length_py_upto_from: "length (py_upto xs n) + length (py_from xs n) = length xs"
  by (metis length_append py_upto_from)

lemma length_py_from_1 [simp]: "length (py_from xs 1) = length xs - 1"
  by (simp add: py_from_def)

lemma length_py_upto_nonneg: "0 \<le> n \<Longrightarrow> length (py_upto xs n) = min (nat n) (length xs)"
  by (simp add: py_upto_def min_def)

lemma py_last_Inr: "xs \<noteq> [] \<Longrightarrow> \<exists>x. py_last xs = Inr x"
  by (simp add: py_last_def)

lemma assign_tail_length:
  "assign_tail sig vs = Inr sig' \<Longrightarrow> length sig' = length sig"
  by (auto simp: assign_tail_def Let_def py_from_def py_upto_def split: if_splits)

lemma assign_tail_total:
  "vs \<noteq> [] \<Longrightarrow> length vs \<le> length sig \<Longrightarrow> \<exists>sig'. assign_tail sig vs = Inr sig'"
  by (cases vs) (auto simp: assign_tail_def Let_def py_from_def)

lemma rise_overwrite_length:
  "rise_overwrite row sig = Inr sig' \<Longrightarrow> length sig' = length sig"
  by (auto simp: rise_overwrite_def Let_def ebind_eq_Inr split: if_splits
      dest: assign_tail_length)

lemma rise_overwrite_total:
  assumes "0 \<le> period row" "period row div 4 - 1 \<le> int (length sig)"
  shows "\<exists>sig'. rise_overwrite row sig = Inr sig'"
proof -
  from assms(1) have t: "trunc (real_of_int (period row) / 4) = period row div 4"
    by (rule trunc_div4)
  from assms(1) have "0 \<le> period row div 4" by simp
  from np_linspace_total[OF this] obtain l where
    l: "np_linspace (- pi / 2) 0 (period row div 4) = Inr l" by blast
  from np_linspace_Inr[OF l] have len: "length l = nat (period row div 4)" by simp
  have l': "np_linspace (- (pi / 2)) 0 (period row div 4) = Inr l" using l by simp
  show ?thesis
  proof (cases "py_from l 1 = []")
    case True
    then show ?thesis by (simp add: rise_overwrite_def t l' Let_def)
  next
    case False
    let ?rise = "map (\<lambda>ph. fop (*) (Fin (cos ph)) (amp row)) (py_from l 1)"
    have "?rise \<noteq> []" using False by simp
    moreover have "length ?rise \<le> length sig" using len assms(2) by simp
    ultimately obtain sig' where "assign_tail sig ?rise = Inr sig'"
      using assign_tail_total by blast
    then show ?thesis using False by (simp add: rise_overwrite_def t l' Let_def)
  qed
qed

lemma osc_cycle_length:
  assumes "osc_cycle row sig prev = Inr cycle_t"
    and "0 \<le> period row" and "rdsym row = Fin r" and "0 \<le> r" and "r \<le> 1"
  shows "int (length cycle_t) = period row"
proof -
  let ?rise = "trunc (np_round (real_of_int (period row) * r))"
  let ?decay = "period row - ?rise"
  from rise_samples_bounds[OF assms(2,4,5)] have b: "0 \<le> ?rise" "?rise \<le> period row" by simp_all
  from assms(1,3) obtain l1 l2 where
    l1: "np_linspace 0 pi (?decay + 1) = Inr l1" and l2: "np_linspace (- pi) 0 (?rise + 1) = Inr l2"
    and rest: "(let pha_t = py_from l1 1 @ py_from l2 1;
                  cycle_t = map (\<lambda>ph. Fin (cos ph)) pha_t
              in if prev then
                   ebind (py_last sig) (\<lambda>sig_last.
                     let scaling = fop (/) (fop (+) (amp row) sig_last) (Fin 2);
                         offset = fop (/) (fop (-) sig_last (amp row)) (Fin 2);
                         cycle_t1 =
                           map (\<lambda>c. fop (+) (fop (*) c scaling) offset)
                             (py_upto cycle_t ?decay)
                           @ py_from cycle_t ?decay;
                         cycle_t2 =
                           py_upto cycle_t1 ?decay
                           @ map (\<lambda>c. fop (*) c (amp row)) (py_from cycle_t1 ?decay)
                     in Inr cycle_t2)
                 else Inr (map (\<lambda>c. fop (*) c (amp row)) cycle_t)) = Inr cycle_t"
    by (auto simp: osc_cycle_def ebind_eq_Inr Let_def)
  from np_linspace_Inr[OF l1] np_linspace_Inr[OF l2] b
  have len: "length l1 = nat (?decay + 1)" "length l2 = nat (?rise + 1)" by simp_all
  have body: "int (length (py_from l1 1 @ py_from l2 1)) = period row"
    using len b by simp
  show ?thesis
  proof (cases prev)
    case False
    with rest have "cycle_t = map (\<lambda>c. fop (*) c (amp row))
                       (map (\<lambda>ph. Fin (cos ph)) (py_from l1 1 @ py_from l2 1))"
      by (simp add: Let_def)
    with body show ?thesis by simp
  next
    case True
    let ?c = "map (\<lambda>ph. Fin (cos ph)) (py_from l1 1 @ py_from l2 1)"
    from True rest obtain sig_last where
      ct: "cycle_t =
             (let scaling = fop (/) (fop (+) (amp row) sig_last) (Fin 2);
                  offset = fop (/) (fop (-) sig_last (amp row)) (Fin 2);
                  cycle_t1 = map (\<lambda>c. fop (+) (fop (*) c scaling) offset) (py_upto ?c ?decay)
                             @ py_from ?c ?decay
              in py_upto cycle_t1 ?decay
                 @ map (\<lambda>c. fop (*) c (amp row)) (py_from cycle_t1 ?decay))"
      by (auto simp: Let_def ebind_eq_Inr)
    have "length cycle_t = length ?c"
      unfolding ct Let_def
      by (simp add: length_py_upto_from)
    with body show ?thesis by simp
  qed
qed

lemma osc_cycle_total:
  assumes "0 \<le> period row" and "rdsym row = Fin r" and "0 \<le> r" and "r \<le> 1"
    and "prev \<Longrightarrow> sig \<noteq> []"
  shows "\<exists>cycle_t. osc_cycle row sig prev = Inr cycle_t"
proof -
  let ?rise = "trunc (np_round (real_of_int (period row) * r))"
  let ?decay = "period row - ?rise"
  from rise_samples_bounds[OF assms(1,3,4)] have b: "0 \<le> ?rise" "?rise \<le> period row" by simp_all
  then have "0 \<le> ?decay + 1" "0 \<le> ?rise + 1" by simp_all
  then obtain l1 l2 where
    l1: "np_linspace 0 pi (?decay + 1) = Inr l1" and l2: "np_linspace (- pi) 0 (?rise + 1) = Inr l2"
    using np_linspace_total by blast
  show ?thesis
  proof (cases prev)
    case False
    then show ?thesis by (simp add: osc_cycle_def assms(2) l1 l2 Let_def)
  next
    case True
    with assms(5) obtain x where "py_last sig = Inr x" using py_last_Inr by blast
    with True show ?thesis by (simp add: osc_cycle_def assms(2) l1 l2 Let_def)
  qed
qed

lemma rdsym_in_unit_osc:
  "rdsym_in_unit row \<Longrightarrow> is_cycle row \<noteq> Some False \<Longrightarrow>
     \<exists>r. rdsym row = Fin r \<and> 0 \<le> r \<and> r \<le> 1"
  by (cases "rdsym row") (simp_all add: rdsym_in_unit_def)

lemma sim_row_length:
  assumes "sim_row row (sig, prev) = Inr (sig', prev')"
    and "is_cycle row \<noteq> Some False \<Longrightarrow> 0 \<le> period row"
    and "rdsym_in_unit row"
  shows "int (length sig') = int (length sig) + period row
       \<and> prev' = (is_cycle row \<noteq> Some False)"
proof (cases "is_cycle row = Some False")
  case quiet: True
  show ?thesis
  proof (cases prev)
    case True
    with quiet assms(1) obtain decay_pha sig_last cycle_t where
      d: "np_linspace 0 (pi / 2) (trunc (real_of_int (period row) / 4)) = Inr decay_pha"
      and z: "np_zeros (period row - trunc (real_of_int (period row) / 4)) = Inr cycle_t"
      and r: "sig' = (sig @ map (\<lambda>ph. fop (*) (Fin (cos ph)) sig_last) decay_pha) @ cycle_t"
             "prev' = False"
      by (auto simp: sim_row_def Let_def ebind_eq_Inr)
    from np_linspace_Inr[OF d] np_zeros_Inr[OF z] show ?thesis
      using quiet r by simp
  next
    case False
    with quiet assms(1) obtain cycle_t where
      z: "np_zeros (period row) = Inr cycle_t" and r: "sig' = sig @ cycle_t" "prev' = False"
      by (auto simp: sim_row_def Let_def ebind_eq_Inr)
    from np_zeros_Inr[OF z] show ?thesis using quiet r by simp
  qed
next
  case osc: False
  from rdsym_in_unit_osc[OF assms(3) osc] obtain r where
    r: "rdsym row = Fin r" "0 \<le> r" "r \<le> 1" by blast
  from osc assms(1) obtain sig1 cycle_t where
    s1: "(if \<not> prev then rise_overwrite row sig else Inr sig) = Inr sig1"
    and c: "osc_cycle row sig1 prev = Inr cycle_t"
    and res: "sig' = sig1 @ cycle_t" "prev' = True"
    by (auto simp: sim_row_def Let_def ebind_eq_Inr)
  from s1 have "length sig1 = length sig"
    by (auto split: if_splits dest: rise_overwrite_length)
  moreover from osc_cycle_length[OF c assms(2)[OF osc] r]
  have "int (length cycle_t) = period row" .
  ultimately show ?thesis using res osc by simp
qed

lemma sim_row_total:
  assumes "0 \<le> period row" and "rdsym_in_unit row"
    and "prev \<Longrightarrow> sig \<noteq> []"
    and "is_cycle row \<noteq> Some False \<Longrightarrow> \<not> prev \<Longrightarrow> period row div 4 - 1 \<le> int (length sig)"
  shows "\<exists>st. sim_row row (sig, prev) = Inr st"
proof (cases "is_cycle row = Some False")
  case quiet: True
  from assms(1) have t: "trunc (real_of_int (period row) / 4) = period row div 4"
    by (rule trunc_div4)
  from assms(1) have q: "0 \<le> period row div 4" "0 \<le> period row - period row div 4"
    by simp_all
  show ?thesis
  proof (cases prev)
    case True
    from q obtain decay_pha cycle_t where
      "np_linspace 0 (pi / 2) (period row div 4) = Inr decay_pha"
      "np_zeros (period row - period row div 4) = Inr cycle_t"
      using np_linspace_total np_zeros_total by blast
    moreover from assms(3)[OF True] obtain x where "py_last sig = Inr x"
      using py_last_Inr by blast
    ultimately show ?thesis using quiet True by (auto simp: sim_row_def t Let_def)
  next
    case False
    from assms(1) obtain cycle_t where "np_zeros (period row) = Inr cycle_t"
      using np_zeros_total by blast
    then show ?thesis using quiet False by (auto simp: sim_row_def)
  qed
next
  case osc: False
  from rdsym_in_unit_osc[OF assms(2) osc] obtain r where
    r: "rdsym row = Fin r" "0 \<le> r" "r \<le> 1" by blast
  have "\<exists>sig1. (if \<not> prev then rise_overwrite row sig else Inr sig) = Inr sig1
              \<and> length sig1 = length sig"
  proof (cases prev)
    case True
    then show ?thesis by simp
  next
    case False
    from rise_overwrite_total[OF assms(1) assms(4)[OF osc False]] obtain sig1 where
      "rise_overwrite row sig = Inr sig1" by blast
    with False rise_overwrite_length[OF this] show ?thesis by simp
  qed
  then obtain sig1 where
    s1: "(if \<not> prev then rise_overwrite row sig else Inr sig) = Inr sig1"
    and l1: "length sig1 = length sig" by blast
  from assms(3) l1 have "prev \<Longrightarrow> sig1 \<noteq> []" by auto
  from osc_cycle_total[OF assms(1) r this] obtain cycle_t where
    "osc_cycle row sig1 prev = Inr cycle_t" by blast
  with s1 osc show ?thesis by (auto simp: sim_row_def)
qed

lemma sim_rows_length:
  "sim_rows rows (sig, prev) = Inr (sig', prev') \<Longrightarrow>
   \<forall>row \<in> set rows. (is_cycle row \<noteq> Some False \<longrightarrow> 0 \<le> period row) \<and> rdsym_in_unit row \<Longrightarrow>
     int (length sig') = int (length sig) + sum_list (map period rows)"
proof (induction rows arbitrary: sig prev)
  case Nil
  then show ?case by simp
next
  case (Cons row rows)
  from Cons.prems(1) obtain sig1 prev1 where
    r: "sim_row row (sig, prev) = Inr (sig1, prev1)"
    and rs: "sim_rows rows (sig1, prev1) = Inr (sig', prev')"
    by (auto simp: ebind_eq_Inr)
  from Cons.prems(2) have "is_cycle row \<noteq> Some False \<Longrightarrow> 0 \<le> period row" "rdsym_in_unit row"
    by simp_all
  from sim_row_length[OF r this]
  have "int (length sig1) = int (length sig) + period row" by simp
  moreover from Cons.IH[OF rs] Cons.prems(2)
  have "int (length sig') = int (length sig1) + sum_list (map period rows)" by simp
  ultimately show ?case by simp
qed

lemma sim_rows_total:
  "\<forall>row \<in> set rows. 0 < period row \<and> rdsym_in_unit row \<Longrightarrow>
   entry_ok (int (length sig)) prev rows \<Longrightarrow> (prev \<Longrightarrow> sig \<noteq> []) \<Longrightarrow>
     \<exists>st. sim_rows rows (sig, prev) = Inr st"
proof (induction rows arbitrary: sig prev)
  case Nil
  then show ?case by simp
next
  case (Cons row rows)
  from Cons.prems(1) have p: "0 < period row" and u: "rdsym_in_unit row" by simp_all
  from Cons.prems(2) have
    e: "is_cycle row \<noteq> Some False \<Longrightarrow> \<not> prev \<Longrightarrow> period row div 4 - 1 \<le> int (length sig)"
    and e': "entry_ok (int (length sig) + period row) (is_cycle row \<noteq> Some False) rows"
    by (auto split: if_splits)
  from p have p0: "0 \<le> period row" by simp
  from sim_row_total[OF p0 u Cons.prems(3) e] obtain sig1 prev1 where
    r: "sim_row row (sig, prev) = Inr (sig1, prev1)" by force
  have "is_cycle row \<noteq> Some False \<Longrightarrow> 0 \<le> period row" using p0 by simp
  from sim_row_length[OF r this u]
  have l: "int (length sig1) = int (length sig) + period row"
    and pr: "prev1 = (is_cycle row \<noteq> Some False)" by simp_all
  from l p have ne: "sig1 \<noteq> []" by auto
  from Cons.prems(1) have "\<forall>row \<in> set rows. 0 < period row \<and> rdsym_in_unit row" by simp
  from Cons.IH[OF this, of sig1 prev1] e' l pr ne
  obtain st where "sim_rows rows (sig1, prev1) = Inr st" by auto
  with r show ?case by simp
qed

text \<open>C4 (fails on the code): at the entry of a burst line 361 overwrites the last
  \<open>\<lfloor>period / 4\<rfloor> - 1\<close> samples of the signal. Line 360 guards the empty rise, but nothing
  guards a signal that is shorter than the rise, and numpy then raises. A non-oscillating
  row of period 1 followed by an oscillating row of period 12 is such a table; both rows
  pass the validity test of the sampler.\<close>

theorem sim_cycles_raises:
  "valid_row \<lparr>is_cycle = Some False, period = 1, amp = NaN, rdsym = NaN, start_sample = 0\<rparr>
   \<and> valid_row \<lparr>is_cycle = Some True, period = 12, amp = Fin 1, rdsym = Fin (1 / 2),
                start_sample = 1\<rparr>
   \<and> sim_cycles
        [\<lparr>is_cycle = Some False, period = 1, amp = NaN, rdsym = NaN, start_sample = 0\<rparr>,
         \<lparr>is_cycle = Some True, period = 12, amp = Fin 1, rdsym = Fin (1 / 2),
          start_sample = 1\<rparr>]
       = Inl (ValueError ''could not broadcast input array'')"
  by (simp add: valid_row_def sim_cycles_def sim_row_def np_zeros_def rise_overwrite_def
      np_linspace_def trunc_def py_from_def assign_tail_def numeral_3_eq_3)

text \<open>C9, as stated, fails: positive periods and enough samples at every burst entry do
  not bound the symmetry. An oscillating row of period 1 with symmetry 2 has
  \<open>rise_samples = 2\<close> and \<open>decay_samples = -1\<close>, and contributes 2 samples, so the signal
  has 3 samples for periods that sum to 2.\<close>

theorem row_contributes_more_than_period:
  "0 < period \<lparr>is_cycle = Some False, period = 1, amp = NaN, rdsym = NaN, start_sample = 0\<rparr>
   \<and> 0 < period \<lparr>is_cycle = Some True, period = 1, amp = Fin 1, rdsym = Fin 2,
                   start_sample = 1\<rparr>
   \<and> entry_ok 0 False
        [\<lparr>is_cycle = Some False, period = 1, amp = NaN, rdsym = NaN, start_sample = 0\<rparr>,
         \<lparr>is_cycle = Some True, period = 1, amp = Fin 1, rdsym = Fin 2, start_sample = 1\<rparr>]
   \<and> sim_cycles
        [\<lparr>is_cycle = Some False, period = 1, amp = NaN, rdsym = NaN, start_sample = 0\<rparr>,
         \<lparr>is_cycle = Some True, period = 1, amp = Fin 1, rdsym = Fin 2, start_sample = 1\<rparr>]
       = Inr [Fin 0, Fin 0, Fin 1]
   \<and> sum_list (map period
        [\<lparr>is_cycle = Some False, period = 1, amp = NaN, rdsym = NaN, start_sample = 0\<rparr>,
         \<lparr>is_cycle = Some True, period = 1, amp = Fin 1, rdsym = Fin 2, start_sample = 1\<rparr>])
       = 2"
  by (simp add: sim_cycles_def sim_row_def np_zeros_def rise_overwrite_def osc_cycle_def
      np_linspace_def trunc_def np_round_def py_from_def numeral_3_eq_3)

text \<open>C9, amended: for every cycle table whose periods are all positive, whose oscillating
  rows have a symmetry in \<open>[0, 1]\<close>, and in which every row that enters a burst finds at
  least \<open>\<lfloor>period / 4\<rfloor> - 1\<close> samples already emitted, the synthesizer returns a signal
  whose length is the sum of the periods of all rows: every row adds exactly \<open>period\<close>
  samples, the rise at a burst entry overwriting samples and adding none.\<close>

theorem sim_cycles_length:
  assumes "\<forall>row \<in> set df. 0 < period row \<and> rdsym_in_unit row" and "entry_ok 0 False df"
  shows "\<exists>sig. sim_cycles df = Inr sig \<and> int (length sig) = sum_list (map period df)"
proof -
  from sim_rows_total[OF assms(1), of "[]" False] assms(2)
  obtain sig prev where r: "sim_rows df ([], False) = Inr (sig, prev)" by auto
  from assms(1) have "\<forall>row \<in> set df. (is_cycle row \<noteq> Some False \<longrightarrow> 0 \<le> period row)
                       \<and> rdsym_in_unit row" by auto
  from sim_rows_length[OF r this] have "int (length sig) = sum_list (map period df)" by simp
  with r show ?thesis by (simp add: sim_cycles_def)
qed

theorem sim_cycles_length_witness:
  "0 < period \<lparr>is_cycle = Some False, period = 4, amp = NaN, rdsym = NaN, start_sample = 0\<rparr>
   \<and> rdsym_in_unit \<lparr>is_cycle = Some False, period = 4, amp = NaN, rdsym = NaN,
                    start_sample = 0\<rparr>
   \<and> 0 < period \<lparr>is_cycle = Some True, period = 12, amp = Fin 1, rdsym = Fin (1 / 2),
                   start_sample = 4\<rparr>
   \<and> rdsym_in_unit \<lparr>is_cycle = Some True, period = 12, amp = Fin 1, rdsym = Fin (1 / 2),
                    start_sample = 4\<rparr>
   \<and> entry_ok 0 False
        [\<lparr>is_cycle = Some False, period = 4, amp = NaN, rdsym = NaN, start_sample = 0\<rparr>,
         \<lparr>is_cycle = Some True, period = 12, amp = Fin 1, rdsym = Fin (1 / 2),
          start_sample = 4\<rparr>]
   \<and> (\<exists>sig. sim_cycles
        [\<lparr>is_cycle = Some False, period = 4, amp = NaN, rdsym = NaN, start_sample = 0\<rparr>,
         \<lparr>is_cycle = Some True, period = 12, amp = Fin 1, rdsym = Fin (1 / 2),
          start_sample = 4\<rparr>] = Inr sig \<and> int (length sig) = 16)"
proof -
  let ?df = "[\<lparr>is_cycle = Some False, period = 4, amp = NaN, rdsym = NaN, start_sample = 0\<rparr>,
         \<lparr>is_cycle = Some True, period = 12, amp = Fin 1, rdsym = Fin (1 / 2),
          start_sample = 4\<rparr>]"
  have v: "\<forall>row \<in> set ?df. 0 < period row \<and> rdsym_in_unit row"
    by (simp add: rdsym_in_unit_def)
  have e: "entry_ok 0 False ?df" by simp
  from sim_cycles_length[OF v e] v e show ?thesis by simp
qed

subsection \<open>The whole simulation\<close>

lemma slot_spec_rdsym:
  "slot_spec cf rn f p a r \<Longrightarrow> f \<noteq> Some False \<Longrightarrow> \<exists>z. r = Fin z \<and> 0 < z \<and> z < 1"
  by (auto simp: slot_spec_def)

lemma length_normalize [simp]: "length (normalize sig) = length sig"
  by (simp add: normalize_def Let_def)

lemma sim_features_Inr:
  assumes "sim_bursty_oscillation_features ev n_seconds fs freq rdsym_arg enter_burst leave_burst
             cfa return_cycle_df n_tries rand randn = Inr (sig, dfo)"
  shows "\<exists>n df0 sig0.
           sim_table ev n_seconds fs freq rdsym_arg enter_burst leave_burst cfa n_tries rand randn
             = Inr (n, df0)
         \<and> sim_cycles (filter (\<lambda>row. start_sample row < n) df0) = Inr sig0
         \<and> sig = normalize (py_upto sig0 n)"
  using assms
  by (auto simp: sim_bursty_oscillation_features_def Let_def ebind_eq_Inr split: if_splits)

lemma sim_table_rows_ok:
  assumes "sim_table ev n_seconds fs freq rdsym_arg enter_burst leave_burst cfa n_tries rand randn
             = Inr (n, df0)"
  shows "\<forall>row \<in> set df0. (is_cycle row \<noteq> Some False \<longrightarrow> 0 \<le> period row) \<and> rdsym_in_unit row"
proof
  fix row assume "row \<in> set df0"
  then obtain i where i: "i < length df0" and row: "row = df0 ! i"
    by (auto simp: in_set_conv_nth)
  from sim_table_rows[OF assms] obtain m flags ps as rs where
    len: "length df0 = length flags"
    and rows: "\<And>i. i < length flags \<Longrightarrow>
                 df0 ! i = \<lparr>is_cycle = flags ! i, period = ps ! i, amp = as ! i, rdsym = rs ! i,
                            start_sample = wrap64 (sum_list (take i ps))\<rparr>"
    and slots: "\<And>i. i < length flags \<Longrightarrow>
                 slot_spec (cycle_features_use m rdsym_arg cfa) randn
                   (flags ! i) (ps ! i) (as ! i) (rs ! i)"
    by blast
  from i len have i': "i < length flags" by simp
  show "(is_cycle row \<noteq> Some False \<longrightarrow> 0 \<le> period row) \<and> rdsym_in_unit row"
  proof (cases "flags ! i = Some False")
    case True
    then show ?thesis unfolding row rows[OF i'] by (simp add: rdsym_in_unit_def)
  next
    case False
    from slot_spec_period_nonneg[OF slots[OF i'] False] slot_spec_rdsym[OF slots[OF i'] False]
    show ?thesis unfolding row rows[OF i'] by (auto simp: rdsym_in_unit_def)
  qed
qed

lemma sim_cycles_Inr_length:
  assumes "sim_cycles df = Inr sig"
    and "\<forall>row \<in> set df. (is_cycle row \<noteq> Some False \<longrightarrow> 0 \<le> period row) \<and> rdsym_in_unit row"
  shows "int (length sig) = sum_list (map period df)"
proof -
  from assms(1) obtain prev where "sim_rows df ([], False) = Inr (sig, prev)"
    by (auto simp: sim_cycles_def ebind_eq_Inr)
  from sim_rows_length[OF this assms(2)] show ?thesis by simp
qed

lemma wrap64_below:
  assumes "0 \<le> x" and "x < n"
  shows "wrap64 x < n"
proof (cases "x < 2 ^ 63")
  case True
  with assms(1) have "wrap64 x = x" by (intro wrap64_id) (simp add: in_int64_def)
  with assms(2) show ?thesis by simp
next
  case False
  with wrap64_upper[of x] assms(2) show ?thesis by linarith
qed

lemma retained_cover:
  assumes "\<forall>i < length ps. wrap64 (sum_list (take i ps)) < n \<longrightarrow> 0 \<le> ps ! i"
  shows "k \<le> length ps \<Longrightarrow>
     n \<le> sum_list (map (\<lambda>i. if wrap64 (sum_list (take i ps)) < n then ps ! i else 0) [0 ..< k])
     \<or> (sum_list (map (\<lambda>i. if wrap64 (sum_list (take i ps)) < n then ps ! i else 0) [0 ..< k])
          = sum_list (take k ps) \<and> 0 \<le> sum_list (take k ps))"
proof (induction k)
  case 0
  then show ?case by simp
next
  case (Suc k)
  let ?T = "\<lambda>k. sum_list (map (\<lambda>i. if wrap64 (sum_list (take i ps)) < n then ps ! i else 0)
                        [0 ..< k])"
  from Suc have k: "k < length ps"
    and IH: "n \<le> ?T k \<or> (?T k = sum_list (take k ps) \<and> 0 \<le> sum_list (take k ps))"
    by simp_all
  have s: "sum_list (take (Suc k) ps) = sum_list (take k ps) + ps ! k"
    by (simp add: take_Suc_conv_app_nth[OF k])
  have step: "?T (Suc k) = ?T k + (if wrap64 (sum_list (take k ps)) < n then ps ! k else 0)"
    by simp
  have add: "0 \<le> (if wrap64 (sum_list (take k ps)) < n then ps ! k else 0)"
    using assms k by simp
  show ?case
  proof (cases "n \<le> ?T k")
    case True
    with step add show ?thesis by linarith
  next
    case False
    with IH have eq: "?T k = sum_list (take k ps)" and nn: "0 \<le> sum_list (take k ps)"
      by simp_all
    from False eq have "sum_list (take k ps) < n" by simp
    from wrap64_below[OF nn this] have kept: "wrap64 (sum_list (take k ps)) < n" .
    with assms k have "0 \<le> ps ! k" by simp
    with kept step eq s nn show ?thesis by simp
  qed
qed

lemma sim_row_period_nonneg:
  assumes "sim_row row (sig, prev) = Inr st" and "is_cycle row = Some False"
  shows "0 \<le> period row"
proof (cases prev)
  case True
  with assms obtain decay_pha cycle_t where
    d: "np_linspace 0 (pi / 2) (trunc (real_of_int (period row) / 4)) = Inr decay_pha"
    and z: "np_zeros (period row - trunc (real_of_int (period row) / 4)) = Inr cycle_t"
    by (auto simp: sim_row_def Let_def ebind_eq_Inr)
  from np_linspace_Inr[OF d] np_zeros_Inr[OF z] show ?thesis by linarith
next
  case False
  with assms obtain cycle_t where "np_zeros (period row) = Inr cycle_t"
    by (auto simp: sim_row_def Let_def ebind_eq_Inr)
  from np_zeros_Inr[OF this] show ?thesis by simp
qed

lemma sim_rows_period_nonneg:
  "sim_rows rows st = Inr st' \<Longrightarrow>
   \<forall>row \<in> set rows. is_cycle row \<noteq> Some False \<longrightarrow> 0 \<le> period row \<Longrightarrow>
     \<forall>row \<in> set rows. 0 \<le> period row"
proof (induction rows arbitrary: st)
  case Nil
  then show ?case by simp
next
  case (Cons row rows)
  from Cons.prems(1) obtain st1 where
    r: "sim_row row st = Inr st1" and rs: "sim_rows rows st1 = Inr st'"
    by (auto simp: ebind_eq_Inr)
  have "0 \<le> period row"
  proof (cases "is_cycle row = Some False")
    case True
    from r sim_row_period_nonneg[of row "fst st" "snd st" st1, OF _ True] show ?thesis by simp
  next
    case False
    with Cons.prems(2) show ?thesis by simp
  qed
  moreover from Cons.IH[OF rs] Cons.prems(2) have "\<forall>row \<in> set rows. 0 \<le> period row" by simp
  ultimately show ?case by simp
qed

lemma retained_sum:
  assumes "length df0 = length ps"
    and "\<And>i. i < length ps \<Longrightarrow> period (df0 ! i) = ps ! i
                                 \<and> start_sample (df0 ! i) = wrap64 (sum_list (take i ps))"
  shows "sum_list (map period (filter (\<lambda>row. start_sample row < n) df0))
           = sum_list (map (\<lambda>i. if wrap64 (sum_list (take i ps)) < n then ps ! i else 0)
                         [0 ..< length ps])"
proof -
  have df0: "df0 = map (\<lambda>i. df0 ! i) [0 ..< length ps]"
    by (simp add: assms(1)[symmetric] map_nth)
  have "sum_list (map period (filter (\<lambda>row. start_sample row < n) df0))
          = sum_list (map (\<lambda>row. if start_sample row < n then period row else 0) df0)"
    by (rule sum_list_map_filter')
  also have "\<dots> = sum_list (map (\<lambda>row. if start_sample row < n then period row else 0)
                         (map (\<lambda>i. df0 ! i) [0 ..< length ps]))"
    using df0 by simp
  also have "\<dots> = sum_list (map (\<lambda>i. if wrap64 (sum_list (take i ps)) < n then ps ! i else 0)
                         [0 ..< length ps])"
    unfolding map_map using assms(2) by (intro arg_cong[where f = sum_list] map_cong) simp_all
  finally show ?thesis .
qed

lemma slot_spec_default_period:
  "slot_spec (cycle_features_use m r None) rn f p a rr \<Longrightarrow> p = m"
  by (auto simp: slot_spec_def cycle_features_use_def split: if_splits)

lemma sum_list_all_equal:
  "\<forall>i < length ps. ps ! i = (m :: int) \<Longrightarrow> sum_list ps = int (length ps) * m"
proof (induction ps)
  case Nil
  then show ?case by simp
next
  case (Cons p ps)
  from Cons.prems have "p = m" by auto
  moreover from Cons.prems have "\<forall>i < length ps. ps ! i = m" by auto
  ultimately show ?case using Cons.IH by (simp add: algebra_simps)
qed

lemma overestimate_covers:
  assumes "0 < m" and "0 \<le> n"
  shows "n \<le> \<lceil>real_of_int n / real_of_int m * 2\<rceil> * m"
proof -
  let ?x = "real_of_int n / real_of_int m * 2"
  have "?x * real_of_int m \<le> of_int \<lceil>?x\<rceil> * real_of_int m"
    by (rule mult_right_mono[OF le_of_int_ceiling]) (use assms(1) in simp)
  moreover from assms(1) have "?x * real_of_int m = 2 * real_of_int n" by simp
  ultimately have "2 * real_of_int n \<le> real_of_int (\<lceil>?x\<rceil> * m)" by simp
  then have "2 * n \<le> \<lceil>?x\<rceil> * m" by linarith
  with assms(2) show ?thesis by linarith
qed

text \<open>C3, as stated, fails: the signal is cut to \<^verbatim>\<open>n_samples\<close> samples but never padded,
  and the slots generated can hold fewer samples than that. For 1 second at 8 Hz and a
  frequency of 2 Hz there are 8 samples and 4 slots of mean period 4; with
  \<open>period_std = 1\<close> and every draw equal to \<open>-3\<close> each slot has period 1, and the signal
  returned has 4 samples.\<close>

theorem signal_shorter_than_requested:
  "sim_bursty_oscillation_features True 1 8 2 (1 / 2) (1 / 5) (1 / 5) (Some [(''period_std'', 1)])
      False 5 (\<lambda>_. 1 / 2) (\<lambda>_. - 3)
     = Inr (normalize [Fin 0, Fin 0, Fin 0, Fin 0], None)
   \<and> length (normalize [Fin 0, Fin 0, Fin 0, Fin 0]) = 4
   \<and> \<lfloor>(1 :: real) * 8\<rfloor> = 8"
  by (simp add: sim_bursty_oscillation_features_def
      sim_table_def sim_flags_def n_cycles_overestimate_def make_is_osc_def trunc_def
      cycle_features_use_def set_feature_def
      determine_cycle_properties_def cycle_body_def store_cycle_def in_int64_def
      make_df_def cumsum_def wrap64_def py_upto_def
      sim_cycles_def sim_row_def np_zeros_def numeral_eq_Suc)

text \<open>C3, amended: for positive duration, sampling rate and frequency, whenever the
  simulation returns, the signal has \<open>min n P\<close> samples, where \<open>n = \<lfloor>n_seconds * fs\<rfloor>\<close> and
  \<open>P\<close> is the sum of the periods of the rows kept at line 233. So it has exactly \<open>n\<close> samples
  whenever the periods of all generated slots sum to at least \<open>n\<close>, and in particular
  whenever \<^verbatim>\<open>cycle_features\<close> is not given.\<close>

theorem signal_length:
  assumes "0 < n_seconds" and "0 < fs" and "0 < freq"
    and "sim_bursty_oscillation_features ev n_seconds fs freq rdsym_arg enter_burst leave_burst
           cfa return_cycle_df n_tries rand randn = Inr (sig, dfo)"
  shows "\<exists>df0.
           sim_table ev n_seconds fs freq rdsym_arg enter_burst leave_burst cfa n_tries rand randn
             = Inr (\<lfloor>n_seconds * fs\<rfloor>, df0)
         \<and> int (length sig)
             = min \<lfloor>n_seconds * fs\<rfloor>
                 (sum_list (map period
                    (filter (\<lambda>row. start_sample row < \<lfloor>n_seconds * fs\<rfloor>) df0)))
         \<and> (\<lfloor>n_seconds * fs\<rfloor> \<le> sum_list (map period df0) \<longrightarrow>
               int (length sig) = \<lfloor>n_seconds * fs\<rfloor>)
         \<and> (cfa = None \<longrightarrow> int (length sig) = \<lfloor>n_seconds * fs\<rfloor>)"
proof -
  let ?n = "\<lfloor>n_seconds * fs\<rfloor>"
  from sim_features_Inr[OF assms(4)] obtain n df0 sig0 where
    tab: "sim_table ev n_seconds fs freq rdsym_arg enter_burst leave_burst cfa n_tries rand randn
             = Inr (n, df0)"
    and cyc: "sim_cycles (filter (\<lambda>row. start_sample row < n) df0) = Inr sig0"
    and sig: "sig = normalize (py_upto sig0 n)"
    by blast
  from sim_table_rows[OF tab] obtain m flags ps as rs where
    fl: "sim_flags n_seconds fs freq enter_burst leave_burst rand = Inr (m, n, flags)"
    and len: "length df0 = length flags" "length ps = length flags"
    and rows: "\<And>i. i < length flags \<Longrightarrow>
                 df0 ! i = \<lparr>is_cycle = flags ! i, period = ps ! i, amp = as ! i, rdsym = rs ! i,
                            start_sample = wrap64 (sum_list (take i ps))\<rparr>"
    and slots: "\<And>i. i < length flags \<Longrightarrow>
                 slot_spec (cycle_features_use m rdsym_arg cfa) randn
                   (flags ! i) (ps ! i) (as ! i) (rs ! i)"
    by blast
  from sim_flags_Inr[OF fl] have m: "m = trunc (fs / freq)" "m \<noteq> 0"
    and n: "n = trunc (n_seconds * fs)"
    and mk: "make_is_osc \<lceil>real_of_int n / real_of_int m * 2\<rceil> enter_burst leave_burst rand
               = Inr flags"
    by blast+
  from assms(1,2) have n_floor: "n = ?n" and n0: "0 \<le> n"
    unfolding n by (simp_all add: trunc_def)
  from assms(2,3) m have m0: "0 < m"
    using trunc_nonneg[of "fs / freq"] by simp
  \<comment> \<open>the rows kept are fit for the synthesizer, so the signal has one sample per period\<close>
  let ?kept = "filter (\<lambda>row. start_sample row < n) df0"
  from sim_table_rows_ok[OF tab]
  have "\<forall>row \<in> set ?kept. (is_cycle row \<noteq> Some False \<longrightarrow> 0 \<le> period row)
                            \<and> rdsym_in_unit row" by simp
  from sim_cycles_Inr_length[OF cyc this]
  have l0: "int (length sig0) = sum_list (map period ?kept)" .
  have "length sig = min (nat n) (length sig0)"
    unfolding sig using n0 by (simp add: length_py_upto_nonneg)
  with n0 have l: "int (length sig) = min n (int (length sig0))" by arith
  have a: "int (length sig) = min n (sum_list (map period ?kept))"
    using l l0 by simp
  \<comment> \<open>the rows kept hold at least as many samples as all rows, up to \<open>n\<close>\<close>
  have per: "period (df0 ! i) = ps ! i
             \<and> start_sample (df0 ! i) = wrap64 (sum_list (take i ps))"
    if "i < length ps" for i
    using rows[of i] that len by simp
  have all: "map period df0 = ps"
    using len per by (intro nth_equalityI) simp_all
  have kept_sum: "sum_list (map period ?kept)
          = sum_list (map (\<lambda>i. if wrap64 (sum_list (take i ps)) < n then ps ! i else 0)
                        [0 ..< length ps])"
    using len per by (intro retained_sum) simp_all
  from cyc obtain st where "sim_rows ?kept ([], False) = Inr st"
    by (auto simp: sim_cycles_def ebind_eq_Inr)
  from sim_rows_period_nonneg[OF this] sim_table_rows_ok[OF tab]
  have kept_nonneg: "\<forall>row \<in> set ?kept. 0 \<le> period row" by simp
  have "\<forall>i < length ps. wrap64 (sum_list (take i ps)) < n \<longrightarrow> 0 \<le> ps ! i"
  proof (intro allI impI)
    fix i assume i: "i < length ps" and w: "wrap64 (sum_list (take i ps)) < n"
    from i len have "df0 ! i \<in> set df0" by simp
    with w per[OF i] have "df0 ! i \<in> set ?kept" by simp
    with kept_nonneg per[OF i] show "0 \<le> ps ! i" by auto
  qed
  from retained_cover[OF this, of "length ps"] kept_sum
  have cover: "min n (sum_list ps) \<le> sum_list (map period ?kept)" by auto
  have b: "int (length sig) = n" if "n \<le> sum_list (map period df0)"
    using that cover a all by simp
  \<comment> \<open>with the default features every period is the mean period\<close>
  have c: "int (length sig) = n" if none: "cfa = None"
  proof -
    have "\<forall>i < length ps. ps ! i = m"
      using slots len unfolding none by (auto dest: slot_spec_default_period)
    then have "sum_list ps = int (length ps) * m" by (rule sum_list_all_equal)
    moreover from make_is_osc_Inr[OF mk] len
    have "int (length ps) = \<lceil>real_of_int n / real_of_int m * 2\<rceil>" by simp
    ultimately have "n \<le> sum_list ps"
      using overestimate_covers[OF m0 n0] by simp
    then show ?thesis using b all by simp
  qed
  from tab a b c show ?thesis unfolding n_floor by blast
qed

theorem signal_length_witness:
  "(0 :: real) < 1 \<and> (0 :: real) < 8 \<and> (0 :: real) < 2
   \<and> sim_bursty_oscillation_features True 1 8 2 (1 / 2) 1 0 None False 5 (\<lambda>_. 1 / 2) (\<lambda>_. 0)
       = Inr (normalize [Fin 0, Fin 0, Fin 0, Fin 0, Fin 0, Fin (- 1), Fin 0, Fin 1], None)
   \<and> int (length (normalize [Fin 0, Fin 0, Fin 0, Fin 0, Fin 0, Fin (- 1), Fin 0, Fin 1]))
       = \<lfloor>(1 :: real) * 8\<rfloor>"
proof -
  have h: "(0 :: real) < 1" "(0 :: real) < 8" "(0 :: real) < 2" by simp_all
  have e: "sim_bursty_oscillation_features True 1 8 2 (1 / 2) 1 0 None False 5 (\<lambda>_. 1 / 2) (\<lambda>_. 0)
     = Inr (normalize [Fin 0, Fin 0, Fin 0, Fin 0, Fin 0, Fin (- 1), Fin 0, Fin 1], None)"
    by (simp add: sim_bursty_oscillation_features_def
      sim_table_def sim_flags_def n_cycles_overestimate_def make_is_osc_def trunc_def
      cycle_features_use_def start_burst_def
      determine_cycle_properties_def cycle_body_def store_cycle_def in_int64_def
      make_df_def cumsum_def wrap64_def py_upto_def py_from_def
      sim_cycles_def sim_row_def np_zeros_def rise_overwrite_def osc_cycle_def np_linspace_def
      np_round_def numeral_eq_Suc)
  from signal_length[OF h e] h e show ?thesis by auto
qed

subsection \<open>Results that do not depend on the interpreter\<close>

lemma cycle_body_interpreter:
  assumes "cycle_body ev cf nt rn ind f s = Inr s'"
  shows "cycle_body ev' cf nt rn ind f s = Inr s'"
proof (cases "f = Some False")
  case True
  with assms show ?thesis by (simp add: cycle_body_def)
next
  case False
  from assms False obtain cb where cb: "cur_burst s = Some cb"
    by (cases "cur_burst s") (simp_all add: cycle_body_def)
  obtain cb' k where sb: "start_burst cf rn cb (pos s) = (cb', k)"
    by fastforce
  obtain b res k' where tr: "try_features (nat nt) cf cb' rn k (cur_vars s) = (b, res, k')"
    by (metis prod_cases3)
  from assms False have "b \<and> res \<noteq> None"
    by (cases b; cases res) (auto simp: cycle_body_def cb sb tr split: if_splits)
  then obtain v where "b" "res = Some v" by auto
  with assms False show ?thesis
    by (cases v) (simp add: cycle_body_def cb sb tr)
qed

lemma cycle_loop_interpreter:
  "cycle_loop ev cf nt rn ind fl s = Inr s' \<Longrightarrow> cycle_loop ev' cf nt rn ind fl s = Inr s'"
proof (induction fl arbitrary: ind s)
  case Nil
  then show ?case by simp
next
  case (Cons f fl)
  from Cons.prems obtain s1 where b: "cycle_body ev cf nt rn ind f s = Inr s1"
    and l: "cycle_loop ev cf nt rn (Suc ind) fl s1 = Inr s'"
    by (auto simp: ebind_eq_Inr)
  from cycle_body_interpreter[OF b] Cons.IH[OF l] show ?case by simp
qed

lemma determine_cycle_properties_interpreter:
  assumes "determine_cycle_properties ev flags cf nt rn = Inr res"
  shows "determine_cycle_properties ev' flags cf nt rn = Inr res"
proof -
  let ?s0 = "\<lparr>periods = replicate (length flags) 0, amps = replicate (length flags) (Fin 0),
                rdsyms = replicate (length flags) (Fin 0), cur_burst = None, cur_vars = None,
                pos = 0\<rparr>"
  from assms obtain s' where l: "cycle_loop ev cf nt rn 0 flags ?s0 = Inr s'"
    and r: "res = (periods s', amps s', rdsyms s')"
    by (auto simp: determine_cycle_properties_def Let_def ebind_eq_Inr)
  from cycle_loop_interpreter[OF l, of ev'] r show ?thesis
    by (simp add: determine_cycle_properties_def Let_def)
qed

lemma sim_table_interpreter:
  assumes "sim_table ev n_seconds fs freq rdsym_arg enter_burst leave_burst cfa n_tries rand randn
             = Inr res"
  shows "sim_table ev' n_seconds fs freq rdsym_arg enter_burst leave_burst cfa n_tries rand randn
           = Inr res"
proof -
  from assms obtain m n flags tr df where
    fl: "sim_flags n_seconds fs freq enter_burst leave_burst rand = Inr (m, n, flags)"
    and d: "determine_cycle_properties ev flags (cycle_features_use m rdsym_arg cfa) n_tries randn
              = Inr tr"
    and mk: "make_df flags (fst tr) (fst (snd tr)) (snd (snd tr)) = Inr df"
    and r: "res = (n, df)"
    by (auto simp: sim_table_def Let_def ebind_eq_Inr)
  from determine_cycle_properties_interpreter[OF d, of ev'] fl mk r show ?thesis
    by (cases tr) (simp add: sim_table_def Let_def)
qed

lemma sim_bursty_oscillation_features_interpreter:
  assumes "sim_bursty_oscillation_features ev n_seconds fs freq rdsym_arg enter_burst leave_burst
             cfa return_cycle_df n_tries rand randn = Inr res"
  shows "sim_bursty_oscillation_features ev' n_seconds fs freq rdsym_arg enter_burst leave_burst
           cfa return_cycle_df n_tries rand randn = Inr res"
proof -
  from assms obtain tab where
    t: "sim_table ev n_seconds fs freq rdsym_arg enter_burst leave_burst cfa n_tries rand randn
          = Inr tab"
    by (auto simp: sim_bursty_oscillation_features_def ebind_eq_Inr)
  from sim_table_interpreter[OF t, of ev'] t assms show ?thesis
    by (simp add: sim_bursty_oscillation_features_def)
qed

end
